theory Spec2Isabelle
  imports Main
begin

section \<open>Rule sets (RuleSet.run)\<close>

text \<open>
  The join operand of a rule set, \<^verbatim>\<open>'AND' | 'OR'\<close> in the source.
\<close>

datatype JoinOperands = AND | OR

text \<open>
  A child rule is used by \<^verbatim>\<open>RuleSet.run\<close> only through
  \<^verbatim>\<open>const [passed, [result]] = await r.run(item, combinedResults)\<close>:
  it receives the activity and the results accumulated so far and either
  rejects (\<open>Inl\<close>) or yields the tri-state \<^verbatim>\<open>passed\<close>
  (\<open>None\<close> is \<^verbatim>\<open>null\<close>) with the first element of its result list.
\<close>

type_synonym ('i, 'r, 'e) Rule = "'i \<Rightarrow> 'r list \<Rightarrow> 'e + (bool option \<times> 'r)"

record ('i, 'r, 'e) RuleSet =
  rules :: "('i, 'r, 'e) Rule list"
  condition :: JoinOperands

text \<open>
  The \<^verbatim>\<open>for (const r of this.rules)\<close> loop of \<^verbatim>\<open>run\<close>, with the two
  local variables \<^verbatim>\<open>results\<close> and \<^verbatim>\<open>runOne\<close> as arguments, followed by
  the two statements after the loop.
\<close>

fun run_loop ::
  "JoinOperands \<Rightarrow> ('i, 'r, 'e) Rule list \<Rightarrow> 'i \<Rightarrow> 'r list \<Rightarrow> 'r list \<Rightarrow> bool
     \<Rightarrow> 'e + (bool \<times> 'r list)" where
  "run_loop c [] item existingResults results runOne =
     (if \<not> runOne then Inr (False, results) else Inr (True, results))"
| "run_loop c (r # rs) item existingResults results runOne =
     (case r item (existingResults @ results) of
        Inl e \<Rightarrow> Inl e
      | Inr (passed, result) \<Rightarrow>
          (case passed of
             None \<Rightarrow> run_loop c rs item existingResults (results @ [result]) runOne
           | Some p \<Rightarrow>
               if p then
                 (if c = OR then Inr (True, results @ [result])
                  else run_loop c rs item existingResults (results @ [result]) True)
               else if c = AND then Inr (False, results @ [result])
               else run_loop c rs item existingResults (results @ [result]) True))"

definition run ::
  "('i, 'r, 'e) RuleSet \<Rightarrow> 'i \<Rightarrow> 'r list \<Rightarrow> 'e + (bool \<times> 'r list)" where
  "run rset item existingResults =
     run_loop (condition rset) (rules rset) item existingResults [] False"

text \<open>
  \<open>children_yield rs item seen outs\<close>: the first \<open>length outs\<close> children of
  \<open>rs\<close>, called in declared order, each on the activity and on \<open>seen\<close> extended
  by the results of the children before it, return the outcomes \<open>outs\<close>.
\<close>

fun children_yield ::
  "('i, 'r, 'e) Rule list \<Rightarrow> 'i \<Rightarrow> 'r list \<Rightarrow> (bool option \<times> 'r) list \<Rightarrow> bool" where
  "children_yield rs item seen [] = True"
| "children_yield [] item seen (out # outs) = False"
| "children_yield (r # rs) item seen (out # outs) =
     (r item seen = Inr out \<and> children_yield rs item (seen @ [snd out]) outs)"

section \<open>Config resolver (ConfigBuilder.parseToStructured)\<close>

subsection \<open>Strings\<close>

text \<open>
  \<^verbatim>\<open>String.prototype.toLowerCase\<close> on the ASCII letters; every other character is
  left as it is (the model's strings are byte strings, so case mapping outside
  ASCII is not covered).
\<close>

definition toLowerCase_char :: "char \<Rightarrow> char" where
  "toLowerCase_char c =
     (case map_of (zip ''ABCDEFGHIJKLMNOPQRSTUVWXYZ'' ''abcdefghijklmnopqrstuvwxyz'') c of
        Some l \<Rightarrow> l
      | None \<Rightarrow> c)"

definition toLowerCase :: "string \<Rightarrow> string" where
  "toLowerCase s = map toLowerCase_char s"

text \<open>
  \<^verbatim>\<open>String.prototype.trim\<close>: white space (tab, line feed, vertical tab, form feed,
  carriage return, space) is removed from both ends.
\<close>

definition isWhiteSpace :: "char \<Rightarrow> bool" where
  "isWhiteSpace c = (c \<in> set [CHR 0x09, CHR 0x0A, CHR 0x0B, CHR 0x0C, CHR 0x0D, CHR '' ''])"

definition trim :: "string \<Rightarrow> string" where
  "trim s = rev (dropWhile isWhiteSpace (rev (dropWhile isWhiteSpace s)))"

text \<open>
  Modelled from the spec: \<^verbatim>\<open>normalizeName\<close> is imported from \<^verbatim>\<open>./util\<close>, which is not
  among the source files; the spec gives the normalized name as the trimmed,
  lower-cased name.
\<close>

definition normalizeName :: "string \<Rightarrow> string" where
  "normalizeName val = toLowerCase (trim val)"

subsection \<open>The JSON of rules, actions and checks\<close>

text \<open>
  A rule or action object: its \<^verbatim>\<open>kind\<close>, its optional \<^verbatim>\<open>name\<close> and the rest of
  its own properties. \<^verbatim>\<open>const {name: n, ...rest} = rule\<close> is the pair of
  \<open>kind\<close> and \<open>body\<close>, and \<^verbatim>\<open>deepEqual\<close> (fast-deep-equal) on two such
  remainders is equality of these pairs: the body stands for the object's
  properties up to the order of its keys.
\<close>

record 'p ObjectJson =
  kind :: string
  name :: "string option"
  body :: 'p

definition noName :: "'p ObjectJson \<Rightarrow> string \<times> 'p" where
  "noName obj = (kind obj, body obj)"

text \<open>
  An entry of a list of rules is a string (\<^verbatim>\<open>typeof r === 'string'\<close>), a rule
  object (an object whose \<^verbatim>\<open>kind\<close> is defined) or a rule set (an object with
  no \<^verbatim>\<open>kind\<close>, recognised by \<^verbatim>\<open>isRuleSetJSON\<close>), whose remaining property is
  its optional \<^verbatim>\<open>condition\<close>. An entry of a list of actions is a string or an
  action object (\<^verbatim>\<open>isActionJson\<close>).
\<close>

datatype 'p RuleJson =
  RuleName string
| RuleObject "'p ObjectJson"
| RuleSetJson "JoinOperands option" "'p RuleJson list"

datatype 'q ActionJson =
  ActionName string
| ActionObject "'q ObjectJson"

text \<open>
  A check: its optional \<^verbatim>\<open>rules\<close>, its \<^verbatim>\<open>actions\<close> and its other properties,
  which \<^verbatim>\<open>{...c, rules: strongRules, actions: strongActions}\<close> copies.
\<close>

record ('p, 'q, 'm) CheckJson =
  check_rules :: "'p RuleJson list option"
  check_actions :: "'q ActionJson list"
  check_rest :: 'm

record ('p, 'q, 'm) JSONConfig =
  checks :: "('p, 'q, 'm) CheckJson list option"

text \<open>
  The errors thrown during resolution, each with the name its message
  interpolates. \<open>TypeError\<close> is what \<^verbatim>\<open>normalizeName\<close> throws on an undefined
  name.
\<close>

datatype error =
  DuplicateRuleName string
| DuplicateActionName string
| NoNamedRule string
| NoNamedAction string
| TypeError

text \<open>
  A \<^verbatim>\<open>Map<string, RuleObjectJson>\<close> keeps its entries in insertion order, which
  \<^verbatim>\<open>[...nestedNamed.values()]\<close> reads: an association list, extended at its end
  by \<^verbatim>\<open>set\<close> on a key it does not have.
\<close>

type_synonym 'p registry = "(string \<times> 'p ObjectJson) list"

subsection \<open>Extraction\<close>

text \<open>
  The loop \<^verbatim>\<open>for (const rule of rulesToAdd)\<close> of \<^verbatim>\<open>extractNamedRules\<close>.
\<close>

fun addNamedRules :: "'p ObjectJson list \<Rightarrow> 'p registry \<Rightarrow> error + 'p registry" where
  "addNamedRules [] namedRules = Inr namedRules"
| "addNamedRules (rule # rulesToAdd) namedRules =
     (case name rule of
        None \<Rightarrow> Inl TypeError
      | Some n \<Rightarrow>
          (case map_of namedRules (normalizeName n) of
             Some existing \<Rightarrow>
               if noName existing \<noteq> noName rule then Inl (DuplicateRuleName n)
               else addNamedRules rulesToAdd namedRules
           | None \<Rightarrow> addNamedRules rulesToAdd (namedRules @ [(normalizeName n, rule)])))"

fun extractNamedRules :: "'p RuleJson list \<Rightarrow> 'p registry \<Rightarrow> error + 'p registry" where
  "extractNamedRules [] namedRules = Inr namedRules"
| "extractNamedRules (RuleName s # rs) namedRules = extractNamedRules rs namedRules"
| "extractNamedRules (RuleObject rule # rs) namedRules =
     (case addNamedRules (if name rule \<noteq> None then [rule] else []) namedRules of
        Inl e \<Rightarrow> Inl e
      | Inr namedRules' \<Rightarrow> extractNamedRules rs namedRules')"
| "extractNamedRules (RuleSetJson c sr # rs) namedRules =
     (case extractNamedRules sr [] of
        Inl e \<Rightarrow> Inl e
      | Inr nestedNamed \<Rightarrow>
          (case addNamedRules (map snd nestedNamed) namedRules of
             Inl e \<Rightarrow> Inl e
           | Inr namedRules' \<Rightarrow> extractNamedRules rs namedRules'))"

fun extractNamedActions :: "'q ActionJson list \<Rightarrow> 'q registry \<Rightarrow> error + 'q registry" where
  "extractNamedActions [] namedActions = Inr namedActions"
| "extractNamedActions (ActionName s # actions) namedActions =
     extractNamedActions actions namedActions"
| "extractNamedActions (ActionObject a # actions) namedActions =
     (case name a of
        None \<Rightarrow> extractNamedActions actions namedActions
      | Some n \<Rightarrow>
          (case map_of namedActions (toLowerCase n) of
             Some existing \<Rightarrow>
               if noName existing \<noteq> noName a then Inl (DuplicateActionName n)
               else extractNamedActions actions namedActions
           | None \<Rightarrow> extractNamedActions actions (namedActions @ [(toLowerCase n, a)])))"

subsection \<open>Insertion\<close>

text \<open>
  \<^verbatim>\<open>strongRules.push\<close> in list order is the construction of the result list
  front to back; a \<^verbatim>\<open>throw\<close> abandons it.
\<close>

fun insertNamedRules :: "'p RuleJson list \<Rightarrow> 'p registry \<Rightarrow> error + 'p RuleJson list" where
  "insertNamedRules [] namedRules = Inr []"
| "insertNamedRules (RuleName r # rs) namedRules =
     (case map_of namedRules (toLowerCase r) of
        None \<Rightarrow> Inl (NoNamedRule r)
      | Some foundRule \<Rightarrow>
          (case insertNamedRules rs namedRules of
             Inl e \<Rightarrow> Inl e
           | Inr strongRules \<Rightarrow> Inr (RuleObject foundRule # strongRules)))"
| "insertNamedRules (RuleSetJson c sr # rs) namedRules =
     (case insertNamedRules sr namedRules of
        Inl e \<Rightarrow> Inl e
      | Inr setRules \<Rightarrow>
          (case insertNamedRules rs namedRules of
             Inl e \<Rightarrow> Inl e
           | Inr strongRules \<Rightarrow> Inr (RuleSetJson c setRules # strongRules)))"
| "insertNamedRules (RuleObject r # rs) namedRules =
     (case insertNamedRules rs namedRules of
        Inl e \<Rightarrow> Inl e
      | Inr strongRules \<Rightarrow> Inr (RuleObject r # strongRules))"

fun insertNamedActions :: "'q ActionJson list \<Rightarrow> 'q registry \<Rightarrow> error + 'q ActionJson list" where
  "insertNamedActions [] namedActions = Inr []"
| "insertNamedActions (ActionName a # actions) namedActions =
     (case map_of namedActions (toLowerCase a) of
        None \<Rightarrow> Inl (NoNamedAction a)
      | Some foundAction \<Rightarrow>
          (case insertNamedActions actions namedActions of
             Inl e \<Rightarrow> Inl e
           | Inr strongActions \<Rightarrow> Inr (ActionObject foundAction # strongActions)))"
| "insertNamedActions (ActionObject a # actions) namedActions =
     (case insertNamedActions actions namedActions of
        Inl e \<Rightarrow> Inl e
      | Inr strongActions \<Rightarrow> Inr (ActionObject a # strongActions))"

subsection \<open>parseToStructured\<close>

text \<open>
  The two defaults of \<^verbatim>\<open>parseToStructured\<close>: \<^verbatim>\<open>const {checks = []} = config\<close> and
  \<^verbatim>\<open>const {rules = []} = c\<close>.
\<close>

definition checks_or_empty :: "('p, 'q, 'm) JSONConfig \<Rightarrow> ('p, 'q, 'm) CheckJson list" where
  "checks_or_empty config = (case checks config of None \<Rightarrow> [] | Some cs \<Rightarrow> cs)"

definition rules_or_empty :: "('p, 'q, 'm) CheckJson \<Rightarrow> 'p RuleJson list" where
  "rules_or_empty c = (case check_rules c of None \<Rightarrow> [] | Some rs \<Rightarrow> rs)"

text \<open>
  The first loop over the checks: the two extractions, the registries carried
  from check to check.
\<close>

fun extractChecks ::
  "('p, 'q, 'm) CheckJson list \<Rightarrow> 'p registry \<Rightarrow> 'q registry
     \<Rightarrow> error + ('p registry \<times> 'q registry)" where
  "extractChecks [] namedRules namedActions = Inr (namedRules, namedActions)"
| "extractChecks (c # cs) namedRules namedActions =
     (case extractNamedRules (rules_or_empty c) namedRules of
        Inl e \<Rightarrow> Inl e
      | Inr namedRules' \<Rightarrow>
          (case extractNamedActions (check_actions c) namedActions of
             Inl e \<Rightarrow> Inl e
           | Inr namedActions' \<Rightarrow> extractChecks cs namedRules' namedActions'))"

text \<open>The second loop: both insertions, and the check rebuilt around them.\<close>

fun insertChecks ::
  "('p, 'q, 'm) CheckJson list \<Rightarrow> 'p registry \<Rightarrow> 'q registry
     \<Rightarrow> error + ('p, 'q, 'm) CheckJson list" where
  "insertChecks [] namedRules namedActions = Inr []"
| "insertChecks (c # cs) namedRules namedActions =
     (case insertNamedRules (rules_or_empty c) namedRules of
        Inl e \<Rightarrow> Inl e
      | Inr strongRules \<Rightarrow>
          (case insertNamedActions (check_actions c) namedActions of
             Inl e \<Rightarrow> Inl e
           | Inr strongActions \<Rightarrow>
               (case insertChecks cs namedRules namedActions of
                  Inl e \<Rightarrow> Inl e
                | Inr structuredChecks \<Rightarrow>
                    Inr (c\<lparr>check_rules := Some strongRules, check_actions := strongActions\<rparr>
                         # structuredChecks))))"

definition parseToStructured ::
  "('p, 'q, 'm) JSONConfig \<Rightarrow> error + ('p, 'q, 'm) CheckJson list" where
  "parseToStructured config =
     (case extractChecks (checks_or_empty config) [] [] of
        Inl e \<Rightarrow> Inl e
      | Inr (namedRules, namedActions) \<Rightarrow>
          insertChecks (checks_or_empty config) namedRules namedActions)"

subsection \<open>What resolution is expected to do\<close>

text \<open>
  The string entries of a list of rules, nested sets included, in the order
  insertion meets them; and the list with every string entry that the registry
  resolves (under its lower-cased name) replaced by the registered object,
  nested sets treated likewise with their condition and the order of their
  members kept, and every other entry left as it is.
\<close>

fun rule_refs :: "'p RuleJson list \<Rightarrow> string list" where
  "rule_refs [] = []"
| "rule_refs (RuleName r # rs) = r # rule_refs rs"
| "rule_refs (RuleObject obj # rs) = rule_refs rs"
| "rule_refs (RuleSetJson c sr # rs) = rule_refs sr @ rule_refs rs"

fun inlined_rules :: "'p registry \<Rightarrow> 'p RuleJson list \<Rightarrow> 'p RuleJson list" where
  "inlined_rules reg [] = []"
| "inlined_rules reg (RuleName r # rs) =
     (case map_of reg (toLowerCase r) of
        Some obj \<Rightarrow> RuleObject obj
      | None \<Rightarrow> RuleName r) # inlined_rules reg rs"
| "inlined_rules reg (RuleObject obj # rs) = RuleObject obj # inlined_rules reg rs"
| "inlined_rules reg (RuleSetJson c sr # rs) =
     RuleSetJson c (inlined_rules reg sr) # inlined_rules reg rs"

fun action_refs :: "'q ActionJson list \<Rightarrow> string list" where
  "action_refs [] = []"
| "action_refs (ActionName a # as) = a # action_refs as"
| "action_refs (ActionObject obj # as) = action_refs as"

fun inlined_actions :: "'q registry \<Rightarrow> 'q ActionJson list \<Rightarrow> 'q ActionJson list" where
  "inlined_actions reg [] = []"
| "inlined_actions reg (ActionName a # as) =
     (case map_of reg (toLowerCase a) of
        Some obj \<Rightarrow> ActionObject obj
      | None \<Rightarrow> ActionName a) # inlined_actions reg as"
| "inlined_actions reg (ActionObject obj # as) = ActionObject obj # inlined_actions reg as"

text \<open>
  A check is fully inlined when it carries a list of rules and neither its
  rules nor its actions hold a string entry.
\<close>

definition inlined_check :: "('p, 'q, 'm) CheckJson \<Rightarrow> bool" where
  "inlined_check c =
     (case check_rules c of
        None \<Rightarrow> False
      | Some rs \<Rightarrow> rule_refs rs = [] \<and> action_refs (check_actions c) = [])"

subsection \<open>What extraction is expected to do\<close>

text \<open>
  The named objects of a list of rules, nested sets included, and of a list of
  actions, in the order extraction meets them.
\<close>

fun named_rules :: "'p RuleJson list \<Rightarrow> 'p ObjectJson list" where
  "named_rules [] = []"
| "named_rules (RuleName r # rs) = named_rules rs"
| "named_rules (RuleObject obj # rs) = (if name obj \<noteq> None then [obj] else []) @ named_rules rs"
| "named_rules (RuleSetJson c sr # rs) = named_rules sr @ named_rules rs"

fun named_actions :: "'q ActionJson list \<Rightarrow> 'q ObjectJson list" where
  "named_actions [] = []"
| "named_actions (ActionName a # as) = named_actions as"
| "named_actions (ActionObject obj # as) =
     (if name obj \<noteq> None then [obj] else []) @ named_actions as"

text \<open>
  The registry key of an object under a key function on names; an object fits
  a registry when the entry under its key, if there is one, equals it apart
  from the name; two objects agree when they have different keys or are equal
  apart from the name. A list of objects is free of conflicts over a registry
  when each fits the registry and any two agree.
\<close>

definition key_of :: "(string \<Rightarrow> string) \<Rightarrow> 'p ObjectJson \<Rightarrow> string option" where
  "key_of key obj = map_option key (name obj)"

definition fits :: "(string \<Rightarrow> string) \<Rightarrow> 'p registry \<Rightarrow> 'p ObjectJson \<Rightarrow> bool" where
  "fits key reg obj =
     (case key_of key obj of
        None \<Rightarrow> True
      | Some k \<Rightarrow> (case map_of reg k of None \<Rightarrow> True | Some e \<Rightarrow> noName e = noName obj))"

definition agree :: "(string \<Rightarrow> string) \<Rightarrow> 'p ObjectJson \<Rightarrow> 'p ObjectJson \<Rightarrow> bool" where
  "agree key a b =
     (key_of key a = None \<or> key_of key a \<noteq> key_of key b \<or> noName a = noName b)"

definition conflict_free ::
  "(string \<Rightarrow> string) \<Rightarrow> 'p registry \<Rightarrow> 'p ObjectJson list \<Rightarrow> bool" where
  "conflict_free key reg objs =
     (\<forall>a \<in> set objs. fits key reg a \<and> (\<forall>b \<in> set objs. agree key a b))"

text \<open>
  The registry expected after a successful extraction: the entries it had, and
  under every other key the first object met that has this key.
\<close>

definition registered ::
  "(string \<Rightarrow> string) \<Rightarrow> 'p registry \<Rightarrow> 'p ObjectJson list \<Rightarrow> string \<Rightarrow> 'p ObjectJson option" where
  "registered key reg objs k =
     (case map_of reg k of
        Some e \<Rightarrow> Some e
      | None \<Rightarrow> find (\<lambda>obj. key_of key obj = Some k) objs)"

text \<open>
  A name is conflicting when an object that carries it does not fit the
  registry or disagrees with another object of the list.
\<close>

definition conflicting_name ::
  "(string \<Rightarrow> string) \<Rightarrow> 'p registry \<Rightarrow> 'p ObjectJson list \<Rightarrow> string \<Rightarrow> bool" where
  "conflicting_name key reg objs n =
     (\<exists>obj \<in> set objs. name obj = Some n \<and>
        (\<not> fits key reg obj \<or> (\<exists>b \<in> set objs. \<not> agree key b obj)))"

text \<open>
  Registration of a list of objects one after the other, the common shape of
  the loops of \<open>addNamedRules\<close> and \<open>extractNamedActions\<close>, used to reason about
  both.
\<close>

fun register_all ::
  "(string \<Rightarrow> string) \<Rightarrow> (string \<Rightarrow> error) \<Rightarrow> 'p ObjectJson list \<Rightarrow> 'p registry
     \<Rightarrow> error + 'p registry" where
  "register_all key err [] reg = Inr reg"
| "register_all key err (obj # objs) reg =
     (case name obj of
        None \<Rightarrow> Inl TypeError
      | Some n \<Rightarrow>
          (case map_of reg (key n) of
             Some existing \<Rightarrow>
               if noName existing \<noteq> noName obj then Inl (err n)
               else register_all key err objs reg
           | None \<Rightarrow> register_all key err objs (reg @ [(key n, obj)])))"

text \<open>
  A config is fully inlined when each of its checks is; its named rules and
  named actions are those of its checks, in the order of the checks.
\<close>

definition fully_inlined :: "('p, 'q, 'm) JSONConfig \<Rightarrow> bool" where
  "fully_inlined config = (\<forall>c \<in> set (checks_or_empty config). inlined_check c)"

definition all_named_rules :: "('p, 'q, 'm) CheckJson list \<Rightarrow> 'p ObjectJson list" where
  "all_named_rules cs = concat (map (\<lambda>c. named_rules (rules_or_empty c)) cs)"

definition all_named_actions :: "('p, 'q, 'm) CheckJson list \<Rightarrow> 'q ObjectJson list" where
  "all_named_actions cs = concat (map (\<lambda>c. named_actions (check_actions c)) cs)"

section \<open>Resources (SubredditResources)\<close>

subsection \<open>Activities, criteria and what is thrown\<close>

text \<open>
  An activity is a submission or a comment (\<^verbatim>\<open>item instanceof Comment\<close>). The
  methods read its \<^verbatim>\<open>name\<close>, \<^verbatim>\<open>title\<close> and \<^verbatim>\<open>link_id\<close>, and
  \<^verbatim>\<open>item[k]\<close> for the keys of a criteria entry that have no case of their
  own (\<open>props\<close>; \<open>None\<close> is \<^verbatim>\<open>undefined\<close>). A property holds a boolean, a string
  or something else, which is never \<^verbatim>\<open>===\<close> to a value of a criteria entry.
\<close>

datatype pval = PBool bool | PString string | POther

record Activity =
  item_name :: string
  is_comment :: bool
  title :: "string option"
  link_id :: string
  props :: "string \<Rightarrow> pval option"

text \<open>
  A criteria entry (\<^verbatim>\<open>SubmissionState\<close>, \<^verbatim>\<open>CommentState\<close>) is an object: its
  keys in the order of \<^verbatim>\<open>Object.keys\<close>, each with its value, which is
  \<^verbatim>\<open>undefined\<close>, a boolean, a string or, for \<^verbatim>\<open>submissionState\<close>, a list of
  entries.
\<close>

datatype cval = CUndefined | CBool bool | CString string | CStates "(string \<times> cval) list list"

type_synonym criteria = "(string \<times> cval) list"

text \<open>
  What a \<^verbatim>\<open>throw\<close> carries: an error object with its \<^verbatim>\<open>logged\<close> property
  (\<open>None\<close> when it has none) and its message; a value that is no object,
  \<^verbatim>\<open>undefined\<close> (\<open>Thrown None\<close>) or a boolean, which is what
  \<^verbatim>\<open>throw err.logged\<close> throws; a \<^verbatim>\<open>TypeError\<close> raised by the runtime. \<open>OutsideModel\<close>
  marks the inputs on which the model says nothing: a cached value of the wrong
  kind under a key, and a criteria value outside its declared type
  (\<^verbatim>\<open>submissionState\<close> that is no list, \<^verbatim>\<open>title\<close> that is a list).
\<close>

datatype thrown =
  ErrorObject "bool option" string
| Thrown "bool option"
| TypeErrorThrown
| OutsideModel

text \<open>
  \<^verbatim>\<open>err.logged\<close>: the property of an error object, \<^verbatim>\<open>undefined\<close> on a boolean
  and on a \<^verbatim>\<open>TypeError\<close>, and itself a \<^verbatim>\<open>TypeError\<close> when \<^verbatim>\<open>err\<close> is
  \<^verbatim>\<open>undefined\<close>.
\<close>

fun logged_property :: "thrown \<Rightarrow> thrown + bool option" where
  "logged_property (ErrorObject l m) = Inr l"
| "logged_property (Thrown None) = Inl TypeErrorThrown"
| "logged_property (Thrown (Some b)) = Inr None"
| "logged_property TypeErrorThrown = Inr None"
| "logged_property OutsideModel = Inl OutsideModel"

text \<open>The calls of the logger, each message by its template and what it interpolates.\<close>

datatype level = LDebug | LWarn | LError

datatype log_msg =
  CacheHitSubmission string
| CacheHitComment string
| FetchActivityError
| ItemCheckCacheHit string string
| ItemCriteriaError
| SubmissionStateOnSubmission
| TitleOnComment
| FailedExpected string cval pval
| TitleNoMatch string
| TitleRegexError string
| PropertyMissing string
| Passed criteria

subsection \<open>The cache, the statistics and the state of a call\<close>

text \<open>
  The backing store holds activities (under \<^verbatim>\<open>sub-\<close> and \<^verbatim>\<open>comm-\<close> keys) and
  results of item checks (under \<^verbatim>\<open>itemCrit-\<close> keys), each with the TTL it was
  stored with. Expiry is an event of the store between calls and is not
  modelled. Every \<^verbatim>\<open>get\<close> and \<^verbatim>\<open>set\<close> is recorded.
\<close>

datatype cached = CachedActivity Activity | CachedBool bool

datatype cache_op = CacheGet string | CacheSet string

datatype category =
  AuthorStats | AuthorCritStats | ItemCritStats | ContentStats | UserNotesStats
| SubmissionStats | CommentStats | CommentCheckStats

record CategoryStats =
  requests :: nat
  miss :: nat
  requestTimestamps :: "nat list"
  identifierRequestCount :: "string \<Rightarrow> nat option"

text \<open>
  Modelled from the spec: \<^verbatim>\<open>cacheStats\<close> is imported from \<^verbatim>\<open>../util\<close>, which is not
  among the source files; every category starts with no requests, no misses, no
  timestamps and no identifier counted.
\<close>

definition cacheStats :: "category \<Rightarrow> CategoryStats" where
  "cacheStats c =
     \<lparr>requests = 0, miss = 0, requestTimestamps = [], identifierRequestCount = (\<lambda>k. None)\<rparr>"

text \<open>
  \<^verbatim>\<open>footer\<close> is \<^verbatim>\<open>false | string\<close> on the object and may be absent in the
  options. The TTL fields are \<^verbatim>\<open>number | false\<close>; \<open>None\<close> is \<^verbatim>\<open>false\<close>. \<open>cache\<close> is a
  reference to a Cache object. The logger, the client, the subreddit, the user
  notes and the prune timer of the object are not modelled.
\<close>

datatype Footer = FooterUndefined | FooterFalse | FooterText string

record SubredditResources =
  resource_name :: string
  authorTTL :: "nat option"
  wikiTTL :: "nat option"
  submissionTTL :: "nat option"
  commentTTL :: "nat option"
  filterCriteriaTTL :: "nat option"
  footer :: Footer
  cache :: nat
  cacheType :: string
  cacheSettingsHash :: string
  prefix :: "string option"
  stats :: "category \<Rightarrow> CategoryStats"

text \<open>
  What a method of one SubredditResources works on: the object itself, the
  contents of the Cache object it refers to with the operations made on it, the
  calls of \<^verbatim>\<open>item.fetch()\<close> made so far and the log.
\<close>

record State =
  self :: SubredditResources
  store :: "string \<Rightarrow> (cached \<times> nat) option"
  cache_ops :: "cache_op list"
  fetches :: "Activity list"
  logged :: "(level \<times> log_msg) list"

text \<open>
  What the methods call outside the class: \<^verbatim>\<open>item.fetch()\<close>,
  \<^verbatim>\<open>client.getSubmission\<close>, \<^verbatim>\<open>String.prototype.match\<close> on a pattern and a title
  (\<open>None\<close> when the pattern does not parse and \<^verbatim>\<open>match\<close> throws), the three
  helpers of \<^verbatim>\<open>SnoowrapUtils\<close>, \<^verbatim>\<open>objectHash.sha1\<close> on a list of criteria and
  \<^verbatim>\<open>Date.now()\<close>.
\<close>

record Env =
  fetch :: "Activity \<Rightarrow> thrown + Activity"
  getSubmission :: "string \<Rightarrow> Activity"
  regex_match :: "string \<Rightarrow> string \<Rightarrow> bool option"
  activityIsRemoved :: "Activity \<Rightarrow> bool"
  activityIsDeleted :: "Activity \<Rightarrow> bool"
  activityIsFiltered :: "Activity \<Rightarrow> bool"
  sha1 :: "criteria list \<Rightarrow> string"
  now :: nat

text \<open>
  Modelled from the spec: \<^verbatim>\<open>asSubmission\<close> is imported from \<^verbatim>\<open>../util\<close>, which is not
  among the source files; it tells a submission from a comment.
\<close>

definition asSubmission :: "Activity \<Rightarrow> bool" where
  "asSubmission item = (\<not> is_comment item)"

definition logger :: "level \<Rightarrow> log_msg \<Rightarrow> State \<Rightarrow> State" where
  "logger l m s = s\<lparr>logged := logged s @ [(l, m)]\<rparr>"

definition update_stats ::
  "category \<Rightarrow> (CategoryStats \<Rightarrow> CategoryStats) \<Rightarrow> State \<Rightarrow> State" where
  "update_stats c f s =
     s\<lparr>self := (self s)\<lparr>stats := (stats (self s))(c := f (stats (self s) c))\<rparr>\<rparr>"

text \<open>
  The three statements that open every cached path:
  \<^verbatim>\<open>identifierRequestCount.set(hash, (await identifierRequestCount.wrap(hash, () => 0)) + 1)\<close>,
  \<^verbatim>\<open>requestTimestamps.push(Date.now())\<close> and \<^verbatim>\<open>requests++\<close>; and \<^verbatim>\<open>miss++\<close>.
\<close>

definition count_request :: "Env \<Rightarrow> category \<Rightarrow> string \<Rightarrow> State \<Rightarrow> State" where
  "count_request env c hash s =
     update_stats c (\<lambda>cs. cs
        \<lparr>identifierRequestCount := (identifierRequestCount cs)
           (hash := Some ((case identifierRequestCount cs hash of None \<Rightarrow> 0 | Some n \<Rightarrow> n) + 1)),
         requestTimestamps := requestTimestamps cs @ [now env],
         requests := requests cs + 1\<rparr>) s"

definition count_miss :: "category \<Rightarrow> State \<Rightarrow> State" where
  "count_miss c s = update_stats c (\<lambda>cs. cs\<lparr>miss := miss cs + 1\<rparr>) s"

definition cache_get :: "string \<Rightarrow> State \<Rightarrow> cached option \<times> State" where
  "cache_get hash s =
     (map_option fst (store s hash), s\<lparr>cache_ops := cache_ops s @ [CacheGet hash]\<rparr>)"

definition cache_set :: "string \<Rightarrow> cached \<Rightarrow> nat \<Rightarrow> State \<Rightarrow> State" where
  "cache_set hash v ttl s =
     s\<lparr>store := (store s)(hash := Some (v, ttl)), cache_ops := cache_ops s @ [CacheSet hash]\<rparr>"

definition item_fetch :: "Env \<Rightarrow> Activity \<Rightarrow> State \<Rightarrow> (thrown + Activity) \<times> State" where
  "item_fetch env item s = (fetch env item, s\<lparr>fetches := fetches s @ [item]\<rparr>)"

subsection \<open>getActivity\<close>

text \<open>
  The body of either cached branch of \<^verbatim>\<open>getActivity\<close>; the two branches differ
  in the category of the statistics, the key, the message of a hit and the TTL.
\<close>

definition cachedActivity ::
  "Env \<Rightarrow> category \<Rightarrow> string \<Rightarrow> log_msg \<Rightarrow> nat \<Rightarrow> Activity \<Rightarrow> State
     \<Rightarrow> (thrown + Activity) \<times> State" where
  "cachedActivity env c hash hit ttl item s =
     (case cache_get hash (count_request env c hash s) of
        (Some (CachedActivity a), s1) \<Rightarrow> (Inr a, logger LDebug hit s1)
      | (Some (CachedBool b), s1) \<Rightarrow> (Inl OutsideModel, s1)
      | (None, s1) \<Rightarrow>
          (case item_fetch env item s1 of
             (Inl err, s2) \<Rightarrow> (Inl err, s2)
           | (Inr a, s2) \<Rightarrow>
               (Inr a, cache_set hash (CachedActivity a) ttl (count_miss c s2))))"

text \<open>
  The \<^verbatim>\<open>try\<close> block with its three branches, then the \<^verbatim>\<open>catch\<close>: the error is
  logged and \<^verbatim>\<open>err.logged\<close> is thrown in its place.
\<close>

definition getActivity :: "Env \<Rightarrow> Activity \<Rightarrow> State \<Rightarrow> (thrown + Activity) \<times> State" where
  "getActivity env item s =
     (case
        (if submissionTTL (self s) \<noteq> None \<and> asSubmission item then
           cachedActivity env SubmissionStats (''sub-'' @ item_name item)
             (CacheHitSubmission (item_name item)) (the (submissionTTL (self s))) item s
         else if commentTTL (self s) \<noteq> None then
           cachedActivity env CommentStats (''comm-'' @ item_name item)
             (CacheHitComment (item_name item)) (the (commentTTL (self s))) item s
         else item_fetch env item s)
      of
        (Inr a, s') \<Rightarrow> (Inr a, s')
      | (Inl OutsideModel, s') \<Rightarrow> (Inl OutsideModel, s')
      | (Inl err, s') \<Rightarrow>
          (case logged_property err of
             Inl e \<Rightarrow> (Inl e, logger LError FetchActivityError s')
           | Inr l \<Rightarrow> (Inl (Thrown l), logger LError FetchActivityError s')))"

subsection \<open>isItem and testItemCriteria\<close>

text \<open>\<^verbatim>\<open>item[k] !== crit[k]\<close> is the negation of \<open>strict_equal\<close>.\<close>

fun strict_equal :: "pval \<Rightarrow> cval \<Rightarrow> bool" where
  "strict_equal (PBool a) (CBool b) = (a = b)"
| "strict_equal (PString a) (CString b) = (a = b)"
| "strict_equal p v = False"

text \<open>
  The pattern \<^verbatim>\<open>match\<close> builds from its argument: the string itself, and the
  text of a boolean.
\<close>

fun pattern_of :: "cval \<Rightarrow> string option" where
  "pattern_of (CString p) = Some p"
| "pattern_of (CBool b) = Some (if b then ''true'' else ''false'')"
| "pattern_of v = None"

text \<open>
  The cases \<^verbatim>\<open>removed\<close>, \<^verbatim>\<open>deleted\<close> and \<^verbatim>\<open>filtered\<close> of the \<^verbatim>\<open>switch\<close>, the case
  \<^verbatim>\<open>title\<close>, the \<^verbatim>\<open>default\<close> case, and the \<^verbatim>\<open>switch\<close> without its first case.
  \<open>Inr True\<close> is \<^verbatim>\<open>break\<close> or \<^verbatim>\<open>continue\<close>: the loop over the keys goes on;
  \<open>Inr False\<close> is \<^verbatim>\<open>return false\<close>.
\<close>

definition flag_test :: "string \<Rightarrow> bool \<Rightarrow> cval \<Rightarrow> State \<Rightarrow> (thrown + bool) \<times> State" where
  "flag_test k found v s =
     (if CBool found \<noteq> v then (Inr False, logger LDebug (FailedExpected k v (PBool found)) s)
      else (Inr True, s))"

definition title_test :: "Env \<Rightarrow> Activity \<Rightarrow> cval \<Rightarrow> State \<Rightarrow> (thrown + bool) \<times> State" where
  "title_test env item v s =
     (if is_comment item then (Inr True, logger LWarn TitleOnComment s)
      else
        (case pattern_of v of
           None \<Rightarrow> (Inl OutsideModel, s)
         | Some titleReg \<Rightarrow>
             (case title item of
                None \<Rightarrow> (Inr False, logger LError (TitleRegexError titleReg) s)
              | Some t \<Rightarrow>
                  (case regex_match env titleReg t of
                     None \<Rightarrow> (Inr False, logger LError (TitleRegexError titleReg) s)
                   | Some False \<Rightarrow> (Inr False, logger LDebug (TitleNoMatch titleReg) s)
                   | Some True \<Rightarrow> (Inr True, s)))))"

definition property_test ::
  "Activity \<Rightarrow> string \<Rightarrow> cval \<Rightarrow> State \<Rightarrow> (thrown + bool) \<times> State" where
  "property_test item k v s =
     (case props item k of
        Some found \<Rightarrow>
          if \<not> strict_equal found v
          then (Inr False, logger LDebug (FailedExpected k v found) s)
          else (Inr True, s)
      | None \<Rightarrow> (Inr True, logger LWarn (PropertyMissing k) s))"

definition own_field_test ::
  "Env \<Rightarrow> Activity \<Rightarrow> string \<Rightarrow> cval \<Rightarrow> State \<Rightarrow> (thrown + bool) \<times> State" where
  "own_field_test env item k v s =
     (if k = ''removed'' then flag_test k (activityIsRemoved env item) v s
      else if k = ''deleted'' then flag_test k (activityIsDeleted env item) v s
      else if k = ''filtered'' then flag_test k (activityIsFiltered env item) v s
      else if k = ''title'' then title_test env item v s
      else property_test item k v s)"

text \<open>
  The \<^verbatim>\<open>catch\<close> of \<^verbatim>\<open>testItemCriteria\<close>: the error is logged unless its
  \<^verbatim>\<open>logged\<close> is \<^verbatim>\<open>true\<close>, and thrown again.
\<close>

definition item_criteria_catch :: "thrown \<Rightarrow> State \<Rightarrow> (thrown + bool) \<times> State" where
  "item_criteria_catch err s =
     (case logged_property err of
        Inl e \<Rightarrow> (Inl e, s)
      | Inr l \<Rightarrow> (Inl err, if l \<noteq> Some True then logger LError ItemCriteriaError s else s))"

text \<open>
  The opening of \<^verbatim>\<open>testItemCriteria\<close>: for a comment and a single entry whose
  only key is \<^verbatim>\<open>submissionState\<close>, the parent submission and the nested list
  take the place of the item and of the criteria.
\<close>

definition submission_only ::
  "Env \<Rightarrow> Activity \<Rightarrow> criteria list \<Rightarrow> State
     \<Rightarrow> (thrown + Activity \<times> criteria list) \<times> State" where
  "submission_only env i states s =
     (case states of
        [[(k, v)]] \<Rightarrow>
          if is_comment i \<and> k = ''submissionState'' \<and> v \<noteq> CUndefined then
            (case getActivity env (getSubmission env (link_id i)) s of
               (Inl err, s1) \<Rightarrow> (Inl err, s1)
             | (Inr item, s1) \<Rightarrow>
                 (case v of
                    CStates sub_states \<Rightarrow> (Inr (item, sub_states), s1)
                  | _ \<Rightarrow> (Inl OutsideModel, s1)))
          else (Inr (i, states), s)
      | _ \<Rightarrow> (Inr (i, states), s))"

definition criteria_size :: "criteria list \<Rightarrow> nat" where
  "criteria_size states = size_list (size_list (size_prod (\<lambda>k. 0) size)) states"

lemma submission_only_size:
  "submission_only env i states s = (Inr (item, states'), s') \<Longrightarrow>
   criteria_size states' \<le> criteria_size states"
  by (auto simp: submission_only_def criteria_size_def
      split: list.splits prod.splits if_splits sum.splits cval.splits)

text \<open>
  \<open>field_test\<close> is one turn of the loop over the keys of an entry, \<open>passes\<close> that
  loop (the inner function of \<^verbatim>\<open>isItem\<close>; its third argument is the whole entry,
  which the last message shows), \<open>some_pass\<close> the loop over the entries. They
  call each other through \<^verbatim>\<open>submissionState\<close>, on a list of entries nested in
  the one at hand.
\<close>

function field_test ::
    "Env \<Rightarrow> Activity \<Rightarrow> string \<times> cval \<Rightarrow> State \<Rightarrow> (thrown + bool) \<times> State"
  and passes ::
    "Env \<Rightarrow> Activity \<Rightarrow> criteria \<Rightarrow> criteria \<Rightarrow> State \<Rightarrow> (thrown + bool) \<times> State"
  and some_pass ::
    "Env \<Rightarrow> Activity \<Rightarrow> criteria list \<Rightarrow> State \<Rightarrow> (thrown + bool) \<times> State"
  and isItem ::
    "Env \<Rightarrow> Activity \<Rightarrow> criteria list \<Rightarrow> State \<Rightarrow> (thrown + bool) \<times> State"
  and testItemCriteria ::
    "Env \<Rightarrow> Activity \<Rightarrow> criteria list \<Rightarrow> State \<Rightarrow> (thrown + bool) \<times> State" where
  "field_test env item (k, v) s =
     (if v = CUndefined then (Inr True, s)
      else if k = ''submissionState'' then
        (if \<not> is_comment item then (Inr True, logger LWarn SubmissionStateOnSubmission s)
         else
           (case getActivity env (getSubmission env (link_id item)) s of
              (Inl err, s1) \<Rightarrow> (Inl err, s1)
            | (Inr sub, s1) \<Rightarrow>
                (case v of
                   CStates states \<Rightarrow> testItemCriteria env sub states s1
                 | _ \<Rightarrow> (Inl OutsideModel, s1))))
      else own_field_test env item k v s)"
| "passes env item crit [] s = (Inr True, logger LDebug (Passed crit) s)"
| "passes env item crit (kv # keys) s =
     (case field_test env item kv s of
        (Inl err, s1) \<Rightarrow> (Inl err, s1)
      | (Inr False, s1) \<Rightarrow> (Inr False, s1)
      | (Inr True, s1) \<Rightarrow> passes env item crit keys s1)"
| "some_pass env item [] s = (Inr False, s)"
| "some_pass env item (crit # stateCriteria) s =
     (case passes env item crit crit s of
        (Inl err, s1) \<Rightarrow> (Inl err, s1)
      | (Inr True, s1) \<Rightarrow> (Inr True, s1)
      | (Inr False, s1) \<Rightarrow> some_pass env item stateCriteria s1)"
| "isItem env item stateCriteria s =
     (if length stateCriteria = 0 then (Inr True, s) else some_pass env item stateCriteria s)"
| "testItemCriteria env i states s =
     (case filterCriteriaTTL (self s) of
        None \<Rightarrow> isItem env i states s
      | Some ttl \<Rightarrow>
          (case submission_only env i states s of
             (Inl err, s1) \<Rightarrow> (Inl err, s1)
           | (Inr (item, states'), s1) \<Rightarrow>
               (case cache_get (''itemCrit-'' @ item_name item @ ''-'' @ sha1 env states')
                       (count_request env ItemCritStats
                          (''itemCrit-'' @ item_name item @ ''-'' @ sha1 env states') s1) of
                  (Some (CachedBool b), s2) \<Rightarrow>
                    (Inr b, logger LDebug (ItemCheckCacheHit (item_name item)
                       (''itemCrit-'' @ item_name item @ ''-'' @ sha1 env states')) s2)
                | (Some (CachedActivity a), s2) \<Rightarrow> (Inl OutsideModel, s2)
                | (None, s2) \<Rightarrow>
                    (case isItem env item states' s2 of
                       (Inl err, s3) \<Rightarrow> item_criteria_catch err s3
                     | (Inr itemResult, s3) \<Rightarrow>
                         (Inr itemResult,
                          cache_set (''itemCrit-'' @ item_name item @ ''-'' @ sha1 env states')
                            (CachedBool itemResult) ttl (count_miss ItemCritStats s3))))))"
  by pat_completeness auto
termination
proof (relation "measure (\<lambda>x. case x of
        Inl (Inl (env, item, kv, s)) \<Rightarrow> 5 * size (snd kv)
      | Inl (Inr (env, item, crit, keys, s)) \<Rightarrow> 5 * size_list (size_prod (\<lambda>k. 0) size) keys + 1
      | Inr (Inl (env, item, states, s)) \<Rightarrow> 5 * criteria_size states + 2
      | Inr (Inr (Inl (env, item, states, s))) \<Rightarrow> 5 * criteria_size states + 3
      | Inr (Inr (Inr (env, item, states, s))) \<Rightarrow> 5 * criteria_size states + 4)")
qed (auto simp: criteria_size_def dest!: submission_only_size [OF sym])

subsection \<open>What the item check is expected to do\<close>

text \<open>
  \<open>fields_pass\<close>: every field of the list passes, each tested in the state the
  one before it left; the result is the state after the last. \<open>entries_fail\<close>:
  every entry of the list fails, likewise in sequence.
\<close>

fun fields_pass :: "Env \<Rightarrow> Activity \<Rightarrow> criteria \<Rightarrow> State \<Rightarrow> State option" where
  "fields_pass env item [] s = Some s"
| "fields_pass env item (kv # keys) s =
     (case field_test env item kv s of
        (Inr True, s1) \<Rightarrow> fields_pass env item keys s1
      | _ \<Rightarrow> None)"

fun entries_fail :: "Env \<Rightarrow> Activity \<Rightarrow> criteria list \<Rightarrow> State \<Rightarrow> State option" where
  "entries_fail env item [] s = Some s"
| "entries_fail env item (crit # stateCriteria) s =
     (case passes env item crit crit s of
        (Inr False, s1) \<Rightarrow> entries_fail env item stateCriteria s1
      | _ \<Rightarrow> None)"

subsection \<open>An environment, a state and two activities to evaluate on\<close>

definition example_env :: Env where
  "example_env =
     \<lparr>fetch = (\<lambda>a. Inr (a\<lparr>title := Some ''fetched''\<rparr>)),
      getSubmission = (\<lambda>id. \<lparr>item_name = id, is_comment = False, title = None, link_id = [],
         props = (\<lambda>k. None)\<rparr>),
      regex_match = (\<lambda>p t. if p = ''['' then None else Some (p = t)),
      activityIsRemoved = (\<lambda>a. False),
      activityIsDeleted = (\<lambda>a. False),
      activityIsFiltered = (\<lambda>a. False),
      sha1 = (\<lambda>states. ''0''),
      now = 0\<rparr>"

definition example_state :: State where
  "example_state =
     \<lparr>self = \<lparr>resource_name = ''sub'', authorTTL = None, wikiTTL = None, submissionTTL = None,
        commentTTL = Some 60, filterCriteriaTTL = None, footer = FooterFalse, cache = 0,
        cacheType = ''memory'', cacheSettingsHash = ''default'', prefix = None,
        stats = cacheStats\<rparr>,
      store = (\<lambda>k. None), cache_ops = [], fetches = [], logged = []\<rparr>"

definition example_submission :: Activity where
  "example_submission =
     \<lparr>item_name = ''t3_a'', is_comment = False, title = Some ''hello'', link_id = [],
      props = (\<lambda>k. None)\<rparr>"

definition example_comment :: Activity where
  "example_comment =
     \<lparr>item_name = ''t1_b'', is_comment = True, title = None, link_id = ''t3_a'',
      props = (\<lambda>k. None)\<rparr>"

section \<open>The registry of resources (BotResourcesManager)\<close>

text \<open>The constant \<^verbatim>\<open>DEFAULT_FOOTER\<close>; it begins with two line breaks around a rule.\<close>

definition DEFAULT_FOOTER :: string where
  "DEFAULT_FOOTER =
     [CHR 0x0D, CHR 0x0A] @ ''*****'' @ [CHR 0x0D, CHR 0x0A] @
     ''This action was performed by [a bot.]({{botLink}}) Mention a moderator or '' @
     ''[send a modmail]({{modmailLink}}) if you any ideas, questions, or concerns about this action.''"

text \<open>
  A TTL of the configuration is \<^verbatim>\<open>false\<close>, \<^verbatim>\<open>true\<close> or a number of seconds;
  \<^verbatim>\<open>Required<TTLConfig>\<close> has all six, the caching settings of a community any
  of them, beside an optional provider, which is the name of a store or the
  options of one.
\<close>

datatype TTLValue = TTLFalse | TTLTrue | TTLNumber nat

record TTLs =
  ttl_userNotes :: TTLValue
  ttl_author :: TTLValue
  ttl_wiki :: TTLValue
  ttl_filterCriteria :: TTLValue
  ttl_submission :: TTLValue
  ttl_comment :: TTLValue

record CacheOptions =
  provider_store :: string
  provider_prefix :: "string option"
  provider_rest :: string

datatype CacheProvider = ProviderName string | ProviderOptions CacheOptions

record CacheConfig =
  provider :: "CacheProvider option"
  userNotesTTL_config :: "TTLValue option"
  authorTTL_config :: "TTLValue option"
  wikiTTL_config :: "TTLValue option"
  filterCriteriaTTL_config :: "TTLValue option"
  submissionTTL_config :: "TTLValue option"
  commentTTL_config :: "TTLValue option"

text \<open>
  The options of \<^verbatim>\<open>set\<close> are the caching settings and the footer (the
  subreddit, the logger and the client they also carry are not modelled); the
  options of the constructor are what \<^verbatim>\<open>set\<close> builds from them.
\<close>

record SubredditResourceConfig =
  caching :: "CacheConfig option"
  footer_config :: Footer

record SubredditResourceOptions =
  opt_cache :: nat
  opt_cacheType :: string
  opt_cacheSettingsHash :: string
  opt_ttl :: TTLs
  opt_prefix :: "string option"
  opt_footer :: Footer

text \<open>
  The Cache objects are kept in a list, a reference being an index: the
  default cache is shared by the manager and by every SubredditResources built
  without settings of its own, and \<^verbatim>\<open>reset\<close> on one reference is seen through
  all others.
\<close>

record CacheObject =
  contents :: "string \<Rightarrow> (cached \<times> nat) option"
  built_from :: CacheOptions

record BotResourcesManager =
  resources :: "string \<Rightarrow> SubredditResources option"
  defaultCache :: nat
  defaultProvider :: CacheOptions
  manager_cacheType :: string
  cacheHash :: string
  ttlDefaults :: TTLs
  caches :: "CacheObject list"

text \<open>
  What \<^verbatim>\<open>set\<close> calls outside the class: \<^verbatim>\<open>objectHash.sha1\<close> on the effective
  settings, and \<^verbatim>\<open>buildCacheOptionsFromProvider\<close> and \<^verbatim>\<open>buildCachePrefix\<close> of
  \<^verbatim>\<open>../util\<close>, which is not among the source files; the options the former
  returns are taken to be a new object, so that assigning its prefix changes
  nothing else.
\<close>

record ManagerEnv =
  objectHash :: "CacheOptions \<times> TTLs \<Rightarrow> string"
  buildCacheOptionsFromProvider :: "CacheProvider \<Rightarrow> CacheOptions"
  buildCachePrefix :: "string option list \<Rightarrow> string"

text \<open>\<^verbatim>\<open>String.prototype.replace\<close> with a string pattern: the first occurrence only.\<close>

fun replace_first :: "string \<Rightarrow> string \<Rightarrow> string \<Rightarrow> string" where
  "replace_first pat by [] = (if pat = [] then by else [])"
| "replace_first pat by (c # cs) =
     (if take (length pat) (c # cs) = pat then by @ drop (length pat) (c # cs)
      else c # replace_first pat by cs)"

text \<open>
  Modelled from the spec: \<^verbatim>\<open>createCacheManager\<close> is imported from \<^verbatim>\<open>../util\<close>, which
  is not among the source files; it builds a fresh cache, whose store is empty.
  \<^verbatim>\<open>cache.reset()\<close> empties the store of the cache it is called on.
\<close>

definition createCacheManager :: "CacheOptions \<Rightarrow> BotResourcesManager \<Rightarrow> nat \<times> BotResourcesManager" where
  "createCacheManager options m =
     (length (caches m),
      m\<lparr>caches := caches m @ [\<lparr>contents = (\<lambda>k. None), built_from = options\<rparr>]\<rparr>)"

definition cache_reset :: "nat \<Rightarrow> BotResourcesManager \<Rightarrow> BotResourcesManager" where
  "cache_reset c m = m\<lparr>caches := (caches m)[c := (caches m ! c)\<lparr>contents := (\<lambda>k. None)\<rparr>]\<rparr>"

text \<open>
  The constructor: \<^verbatim>\<open>authorTTL === true ? 0 : authorTTL\<close> and its likes, the
  fields copied from the options, fresh statistics; \<^verbatim>\<open>footer\<close> keeps its
  initial value \<^verbatim>\<open>DEFAULT_FOOTER\<close>, the constructor does not read the option.
\<close>

fun ttl_of :: "TTLValue \<Rightarrow> nat option" where
  "ttl_of TTLTrue = Some 0"
| "ttl_of TTLFalse = None"
| "ttl_of (TTLNumber n) = Some n"

definition new_SubredditResources :: "string \<Rightarrow> SubredditResourceOptions \<Rightarrow> SubredditResources" where
  "new_SubredditResources subName options =
     \<lparr>resource_name = subName,
      authorTTL = ttl_of (ttl_author (opt_ttl options)),
      wikiTTL = ttl_of (ttl_wiki (opt_ttl options)),
      submissionTTL = ttl_of (ttl_submission (opt_ttl options)),
      commentTTL = ttl_of (ttl_comment (opt_ttl options)),
      filterCriteriaTTL = ttl_of (ttl_filterCriteria (opt_ttl options)),
      footer = FooterText DEFAULT_FOOTER,
      cache = opt_cache options,
      cacheType = opt_cacheType options,
      cacheSettingsHash = opt_cacheSettingsHash options,
      prefix = opt_prefix options,
      stats = cacheStats\<rparr>"

text \<open>
  \<^verbatim>\<open>{...this.ttlDefaults, ...rest}\<close>, the \<^verbatim>\<open>cacheConfig\<close> of \<^verbatim>\<open>set\<close> with the
  default of its provider, and the value of \<^verbatim>\<open>hash\<close> when the options are built.
\<close>

definition merge_ttl :: "TTLs \<Rightarrow> CacheConfig \<Rightarrow> TTLs" where
  "merge_ttl defaults rest =
     \<lparr>ttl_userNotes = (case userNotesTTL_config rest of None \<Rightarrow> ttl_userNotes defaults | Some v \<Rightarrow> v),
      ttl_author = (case authorTTL_config rest of None \<Rightarrow> ttl_author defaults | Some v \<Rightarrow> v),
      ttl_wiki = (case wikiTTL_config rest of None \<Rightarrow> ttl_wiki defaults | Some v \<Rightarrow> v),
      ttl_filterCriteria =
        (case filterCriteriaTTL_config rest of None \<Rightarrow> ttl_filterCriteria defaults | Some v \<Rightarrow> v),
      ttl_submission =
        (case submissionTTL_config rest of None \<Rightarrow> ttl_submission defaults | Some v \<Rightarrow> v),
      ttl_comment = (case commentTTL_config rest of None \<Rightarrow> ttl_comment defaults | Some v \<Rightarrow> v)\<rparr>"

definition cacheConfig :: "ManagerEnv \<Rightarrow> BotResourcesManager \<Rightarrow> CacheConfig \<Rightarrow> CacheOptions \<times> TTLs" where
  "cacheConfig env m c =
     (buildCacheOptionsFromProvider env
        (case provider c of None \<Rightarrow> ProviderOptions (defaultProvider m) | Some p \<Rightarrow> p),
      merge_ttl (ttlDefaults m) c)"

definition settings_hash :: "ManagerEnv \<Rightarrow> BotResourcesManager \<Rightarrow> SubredditResourceConfig \<Rightarrow> string" where
  "settings_hash env m initOptions =
     (case caching initOptions of
        None \<Rightarrow> ''default''
      | Some c \<Rightarrow> objectHash env (cacheConfig env m c))"

text \<open>
  \<^verbatim>\<open>subPrefix\<close>, and the first half of \<^verbatim>\<open>set\<close>: the options of the constructor,
  with a new cache when the settings of the community hash to something else
  than the shared settings.
\<close>

definition subPrefix :: "ManagerEnv \<Rightarrow> BotResourcesManager \<Rightarrow> string \<Rightarrow> CacheOptions \<Rightarrow> string option" where
  "subPrefix env m subName trueProvider =
     (if provider_prefix trueProvider = provider_prefix (defaultProvider m)
      then Some (buildCachePrefix env
             [map_option (replace_first ''SHARED'' []) (provider_prefix trueProvider), Some subName])
      else provider_prefix trueProvider)"

definition build_options ::
  "ManagerEnv \<Rightarrow> string \<Rightarrow> SubredditResourceConfig \<Rightarrow> BotResourcesManager
     \<Rightarrow> SubredditResourceOptions \<times> BotResourcesManager" where
  "build_options env subName initOptions m =
     (let opts = \<lparr>opt_cache = defaultCache m, opt_cacheType = manager_cacheType m,
                  opt_cacheSettingsHash = ''default'', opt_ttl = ttlDefaults m,
                  opt_prefix = provider_prefix (defaultProvider m),
                  opt_footer = footer_config initOptions\<rparr>
      in case caching initOptions of
           None \<Rightarrow> (opts, m)
         | Some c \<Rightarrow>
             if objectHash env (cacheConfig env m c) \<noteq> cacheHash m then
               (let trueProvider = (fst (cacheConfig env m c))
                      \<lparr>provider_prefix := subPrefix env m subName (fst (cacheConfig env m c))\<rparr>;
                    (newCache, m') = createCacheManager trueProvider m
                in (\<lparr>opt_cache = newCache, opt_cacheType = provider_store trueProvider,
                     opt_cacheSettingsHash = objectHash env (cacheConfig env m c),
                     opt_ttl = snd (cacheConfig env m c),
                     opt_prefix = subPrefix env m subName (fst (cacheConfig env m c)),
                     opt_footer = footer_config initOptions\<rparr>, m'))
             else (opts, m))"

text \<open>
  \<^verbatim>\<open>get\<close> and \<^verbatim>\<open>set\<close> of the manager (\<open>set\<close> is the name of a constant of the
  library). \<^verbatim>\<open>opts.footer || DEFAULT_FOOTER\<close> is \<open>footer_or_default\<close>.
\<close>

definition manager_get :: "BotResourcesManager \<Rightarrow> string \<Rightarrow> SubredditResources option" where
  "manager_get m subName = resources m subName"

definition footer_or_default :: "Footer \<Rightarrow> Footer" where
  "footer_or_default f =
     (case f of
        FooterText t \<Rightarrow> if t \<noteq> [] then FooterText t else FooterText DEFAULT_FOOTER
      | _ \<Rightarrow> FooterText DEFAULT_FOOTER)"

definition manager_set ::
  "ManagerEnv \<Rightarrow> string \<Rightarrow> SubredditResourceConfig \<Rightarrow> BotResourcesManager
     \<Rightarrow> SubredditResources \<times> BotResourcesManager" where
  "manager_set env subName initOptions m =
     (let hash = settings_hash env m initOptions;
          (opts, m1) = build_options env subName initOptions m
      in case manager_get m1 subName of
           None \<Rightarrow>
             (new_SubredditResources subName opts,
              m1\<lparr>resources := (resources m1)(subName := Some (new_SubredditResources subName opts))\<rparr>)
         | Some res \<Rightarrow>
             if cacheSettingsHash res \<noteq> hash then
               (new_SubredditResources subName opts,
                (cache_reset (cache res) m1)
                  \<lparr>resources := (resources m1)(subName := Some (new_SubredditResources subName opts))\<rparr>)
             else
               (let resource = res
                      \<lparr>footer := (if opt_footer opts \<noteq> footer res
                                  then footer_or_default (opt_footer opts) else footer res),
                       stats := cacheStats\<rparr>
                in (resource, m1\<lparr>resources := (resources m1)(subName := Some resource)\<rparr>)))"

subsection \<open>A manager to evaluate on\<close>

definition example_manager_env :: ManagerEnv where
  "example_manager_env =
     \<lparr>objectHash = (\<lambda>(p, t). ''sha1:'' @ provider_store p @
         (case ttl_submission t of TTLNumber n \<Rightarrow> replicate n CHR ''s'' | _ \<Rightarrow> [])),
      buildCacheOptionsFromProvider =
        (\<lambda>p. case p of
           ProviderName n \<Rightarrow> \<lparr>provider_store = n, provider_prefix = None, provider_rest = []\<rparr>
         | ProviderOptions options \<Rightarrow> options),
      buildCachePrefix =
        (\<lambda>parts. concat (map (\<lambda>p. case p of None \<Rightarrow> [] | Some x \<Rightarrow> x @ '':'') parts))\<rparr>"

definition example_ttls :: TTLs where
  "example_ttls =
     \<lparr>ttl_userNotes = TTLNumber 300, ttl_author = TTLNumber 60, ttl_wiki = TTLNumber 300,
      ttl_filterCriteria = TTLNumber 60, ttl_submission = TTLNumber 60, ttl_comment = TTLNumber 60\<rparr>"

definition example_manager :: BotResourcesManager where
  "example_manager =
     \<lparr>resources = (\<lambda>subName. None),
      defaultCache = 0,
      defaultProvider =
        \<lparr>provider_store = ''memory'', provider_prefix = Some ''SHARED'', provider_rest = []\<rparr>,
      manager_cacheType = ''memory'',
      cacheHash = ''sha1:shared'',
      ttlDefaults = example_ttls,
      caches =
        [\<lparr>contents = (\<lambda>k. if k = ''sub-t3_other'' then Some (CachedBool True, 60) else None),
          built_from =
            \<lparr>provider_store = ''memory'', provider_prefix = Some ''SHARED'', provider_rest = []\<rparr>\<rparr>]\<rparr>"

definition example_caching :: "nat \<Rightarrow> SubredditResourceConfig" where
  "example_caching n =
     \<lparr>caching = Some \<lparr>provider = None, userNotesTTL_config = None, authorTTL_config = None,
        wikiTTL_config = None, filterCriteriaTTL_config = None,
        submissionTTL_config = Some (TTLNumber n), commentTTL_config = None\<rparr>,
      footer_config = FooterUndefined\<rparr>"

definition example_no_caching :: SubredditResourceConfig where
  "example_no_caching = \<lparr>caching = None, footer_config = FooterText ''bye''\<rparr>"

definition example_put :: "nat \<Rightarrow> string \<Rightarrow> cached \<times> nat \<Rightarrow> BotResourcesManager \<Rightarrow> BotResourcesManager" where
  "example_put c k v m =
     m\<lparr>caches := (caches m)[c := (caches m ! c)\<lparr>contents := (contents (caches m ! c))(k := Some v)\<rparr>]\<rparr>"

lemmas example_manager_simps =
  example_manager_env_def example_manager_def example_caching_def example_no_caching_def
  example_ttls_def example_put_def manager_set_def manager_get_def build_options_def
  settings_hash_def cacheConfig_def merge_ttl_def createCacheManager_def cache_reset_def
  new_SubredditResources_def subPrefix_def Let_def

section \<open>Properties of rule sets\<close>

lemma children_yield_append:
  "children_yield rs item seen (xs @ ys) =
     (children_yield rs item seen xs \<and>
      children_yield (drop (length xs) rs) item (seen @ map snd xs) ys)"
proof (induction xs arbitrary: rs seen)
  case Nil
  then show ?case by simp
next
  case (Cons x xs)
  show ?case
  proof (cases rs)
    case Nil
    then show ?thesis by simp
  next
    case (Cons r rs')
    with Cons.IH [of rs' "seen @ [snd x]"] show ?thesis by simp
  qed
qed

lemma run_loop_no_stop:
  assumes "children_yield rs item (ex @ results) pre"
    and "\<forall>out \<in> set pre. fst out \<noteq> Some (c = OR)"
  shows "run_loop c rs item ex results runOne =
         run_loop c (drop (length pre) rs) item ex (results @ map snd pre)
           (runOne \<or> (\<exists>out \<in> set pre. fst out \<noteq> None))"
  using assms
proof (induction pre arbitrary: rs results runOne)
  case Nil
  then show ?case by simp
next
  case (Cons out pre)
  then obtain r rs' where rs: "rs = r # rs'"
    by (cases rs) auto
  obtain p res where out: "out = (p, res)"
    by (cases out)
  from Cons.prems rs out have r: "r item (ex @ results) = Inr (p, res)"
    and rest: "children_yield rs' item (ex @ (results @ [res])) pre"
    by auto
  from Cons.prems out have p: "p \<noteq> Some (c = OR)"
    and pre: "\<forall>out \<in> set pre. fst out \<noteq> Some (c = OR)"
    by auto
  note IH = Cons.IH [OF rest pre]
  show ?case
  proof (cases p)
    case None
    with IH [of runOne] r rs out show ?thesis
      by simp
  next
    case (Some b)
    with p have b: "b \<noteq> (c = OR)" by simp
    have "run_loop c rs item ex results runOne =
        run_loop c rs' item ex (results @ [res]) True"
      using r rs Some b by (cases c) auto
    with IH [of True] out Some rs show ?thesis
      by simp
  qed
qed

lemma run_loop_stop:
  assumes "children_yield rs item ex (pre @ [(Some b, res)])"
    and "\<forall>out \<in> set pre. fst out \<noteq> Some b"
    and "b = (c = OR)"
  shows "run_loop c rs item ex [] False = Inr (b, map snd pre @ [res])"
proof -
  from assms(1) [unfolded children_yield_append]
  have pre: "children_yield rs item (ex @ []) pre"
    and last: "children_yield (drop (length pre) rs) item (ex @ map snd pre) [(Some b, res)]"
    by simp_all
  from assms(2,3) have nostop: "\<forall>out \<in> set pre. fst out \<noteq> Some (c = OR)"
    by simp
  from last obtain r rs' where d: "drop (length pre) rs = r # rs'"
    and r: "r item (ex @ map snd pre) = Inr (Some b, res)"
    by (cases "drop (length pre) rs") auto
  have "run_loop c rs item ex [] False =
      run_loop c (r # rs') item ex (map snd pre) (\<exists>out \<in> set pre. fst out \<noteq> None)"
    using run_loop_no_stop [OF pre nostop, of False] d by simp
  also have "\<dots> = Inr (b, map snd pre @ [res])"
    using r assms(3) by (cases c) auto
  finally show ?thesis .
qed

lemma run_loop_all:
  assumes "children_yield rs item ex outs"
    and "length outs = length rs"
    and "\<forall>out \<in> set outs. fst out \<noteq> Some (c = OR)"
  shows "run_loop c rs item ex [] False =
         Inr (\<exists>out \<in> set outs. fst out \<noteq> None, map snd outs)"
proof -
  from assms(1) have "children_yield rs item (ex @ []) outs"
    by simp
  from run_loop_no_stop [OF this assms(3), of False] assms(2)
  show ?thesis by simp
qed

lemma applicable_flag:
  "(if Some x \<in> set (map fst os) then a else \<exists>out \<in> set os. fst out \<noteq> None) =
   (if Some x \<in> set (filter (\<lambda>p. p \<noteq> None) (map fst os)) then a
    else filter (\<lambda>p. p \<noteq> None) (map fst os) \<noteq> [])"
  by (auto simp: filter_empty_conv image_iff)

lemma run_loop_complete:
  assumes "children_yield rs item ex outs"
    and "length outs = length rs"
  shows "\<exists>n \<le> length outs.
           run_loop c rs item ex [] False =
             Inr (if Some (c = OR) \<in> set (map fst outs) then c = OR
                  else \<exists>out \<in> set outs. fst out \<noteq> None,
                  map snd (take n outs)) \<and>
           (\<forall>k < length outs. (\<forall>j < k. fst (outs ! j) \<noteq> Some (c = OR)) \<longrightarrow> k < n)"
proof (cases "Some (c = OR) \<in> set (map fst outs)")
  case False
  then have nostop: "\<forall>out \<in> set outs. fst out \<noteq> Some (c = OR)"
    by force
  from run_loop_all [OF assms nostop] False show ?thesis
    by (intro exI [of _ "length outs"]) (simp del: set_map)
next
  case True
  then have "\<exists>out \<in> set outs. fst out = Some (c = OR)"
    by force
  then obtain pre out post where outs: "outs = pre @ out # post"
    and out: "fst out = Some (c = OR)"
    and pre: "\<forall>x \<in> set pre. fst x \<noteq> Some (c = OR)"
    using split_list_first_prop [of outs "\<lambda>x. fst x = Some (c = OR)"] by blast
  obtain res where out': "out = (Some (c = OR), res)"
    using out by (cases out) auto
  from assms(1) outs out' have "children_yield rs item ex ((pre @ [(Some (c = OR), res)]) @ post)"
    by simp
  then have "children_yield rs item ex (pre @ [(Some (c = OR), res)])"
    unfolding children_yield_append [of rs item ex "pre @ [(Some (c = OR), res)]" post] by simp
  from run_loop_stop [OF this pre refl]
  have run: "run_loop c rs item ex [] False = Inr (c = OR, map snd pre @ [res])" .
  have tk: "map snd (take (Suc (length pre)) outs) = map snd pre @ [res]"
    using outs out' by simp
  have bound: "\<forall>k < length outs. (\<forall>j < k. fst (outs ! j) \<noteq> Some (c = OR)) \<longrightarrow> k < Suc (length pre)"
  proof (intro allI impI)
    fix k assume "k < length outs" and nj: "\<forall>j < k. fst (outs ! j) \<noteq> Some (c = OR)"
    show "k < Suc (length pre)"
    proof (rule ccontr)
      assume "\<not> k < Suc (length pre)"
      then have "length pre < k" by simp
      with nj have "fst (outs ! length pre) \<noteq> Some (c = OR)" by blast
      with outs out show False by simp
    qed
  qed
  from run tk bound True outs show ?thesis
    by (intro exI [of _ "Suc (length pre)"]) (simp del: set_map)
qed

text \<open>
  C1. Children are evaluated in declared order, each on the results of the
  children before it. Under AND the first applicable child that fails ends the
  run with \<open>False\<close>; under OR the first applicable child that passes ends it
  with \<open>True\<close>. The returned list holds the results of the children up to and
  including that child, whatever the children after it are.
\<close>

theorem run_short_circuit:
  assumes "children_yield (rules rset) item existingResults (pre @ [(Some b, res)])"
    and "\<forall>out \<in> set pre. fst out \<noteq> Some b"
    and "b = (condition rset = OR)"
  shows "run rset item existingResults = Inr (b, map snd pre @ [res])"
  unfolding run_def using assms by (rule run_loop_stop)

theorem run_short_circuit_witness:
  "run \<lparr>rules = [\<lambda>i s. Inr (Some True, 1), \<lambda>i s. Inr (Some False, 2), \<lambda>i s. Inr (Some True, 3)],
        condition = AND\<rparr> () [] = (Inr (False, [1, 2 :: nat]) :: unit + bool \<times> nat list) \<and>
   run \<lparr>rules = [\<lambda>i s. Inr (Some False, 1), \<lambda>i s. Inr (Some True, 2), \<lambda>i s. Inr (Some False, 3)],
        condition = OR\<rparr> () [] = (Inr (True, [1, 2 :: nat]) :: unit + bool \<times> nat list)"
  using run_short_circuit [of
      "\<lparr>rules = [\<lambda>i s. Inr (Some True, 1), \<lambda>i s. Inr (Some False, 2), \<lambda>i s. Inr (Some True, 3)],
        condition = AND\<rparr>" "()" "[]" "[(Some True, 1 :: nat)]" False 2]
    run_short_circuit [of
      "\<lparr>rules = [\<lambda>i s. Inr (Some False, 1), \<lambda>i s. Inr (Some True, 2), \<lambda>i s. Inr (Some False, 3)],
        condition = OR\<rparr>" "()" "[]" "[(Some False, 1 :: nat)]" True 2]
  by simp

text \<open>
  C2. When every child returns: a child that reports not-applicable
  (\<^verbatim>\<open>passed === null\<close>) has its result recorded whenever the loop reaches it;
  the returned flag is determined by the condition and the applicable outcomes
  alone, so two rule sets under the same condition whose applicable outcomes
  agree return the same flag; and when no child is applicable (in particular
  when there are no children) the flag is \<open>False\<close> under AND and under OR, with
  every child's result recorded.
\<close>

theorem run_not_applicable:
  assumes "children_yield (rules rset) item ex outs"
    and "length outs = length (rules rset)"
  shows "(\<exists>t results. run rset item ex = Inr (t, results) \<and>
            (\<forall>k < length outs.
               fst (outs ! k) = None \<and>
               (\<forall>j < k. fst (outs ! j) \<noteq> Some (condition rset = OR)) \<longrightarrow>
               k < length results \<and> results ! k = snd (outs ! k)) \<and>
            (\<forall>(rset' :: ('j, 's, 'f) RuleSet) item' ex' outs'.
               children_yield (rules rset') item' ex' outs' \<and>
               length outs' = length (rules rset') \<and>
               condition rset' = condition rset \<and>
               filter (\<lambda>p. p \<noteq> None) (map fst outs') = filter (\<lambda>p. p \<noteq> None) (map fst outs) \<longrightarrow>
               (\<exists>results'. run rset' item' ex' = Inr (t, results')))) \<and>
         ((\<forall>out \<in> set outs. fst out = None) \<longrightarrow>
            run rset item ex = Inr (False, map snd outs))"
proof -
  let ?c = "condition rset"
  let ?flag = "\<lambda>ps :: bool option list.
      if Some (?c = OR) \<in> set (filter (\<lambda>p. p \<noteq> None) ps) then ?c = OR
      else filter (\<lambda>p. p \<noteq> None) ps \<noteq> []"
  from run_loop_complete [OF assms, of ?c]
  obtain n where n: "n \<le> length outs"
    and r: "run rset item ex = Inr (?flag (map fst outs), map snd (take n outs))"
    and reach: "\<forall>k < length outs. (\<forall>j < k. fst (outs ! j) \<noteq> Some (?c = OR)) \<longrightarrow> k < n"
    unfolding run_def applicable_flag by blast
  have recorded: "\<forall>k < length outs.
      fst (outs ! k) = None \<and> (\<forall>j < k. fst (outs ! j) \<noteq> Some (?c = OR)) \<longrightarrow>
      k < length (map snd (take n outs)) \<and> map snd (take n outs) ! k = snd (outs ! k)"
    using reach n by auto
  have same: "\<forall>(rset' :: ('j, 's, 'f) RuleSet) item' ex' outs'.
      children_yield (rules rset') item' ex' outs' \<and>
      length outs' = length (rules rset') \<and>
      condition rset' = ?c \<and>
      filter (\<lambda>p. p \<noteq> None) (map fst outs') = filter (\<lambda>p. p \<noteq> None) (map fst outs) \<longrightarrow>
      (\<exists>results'. run rset' item' ex' = Inr (?flag (map fst outs), results'))"
  proof (intro allI impI)
    fix rset' :: "('j, 's, 'f) RuleSet" and item' ex' outs'
    assume h: "children_yield (rules rset') item' ex' outs' \<and>
      length outs' = length (rules rset') \<and>
      condition rset' = ?c \<and>
      filter (\<lambda>p. p \<noteq> None) (map fst outs') = filter (\<lambda>p. p \<noteq> None) (map fst outs)"
    from h have y: "children_yield (rules rset') item' ex' outs'"
      and l: "length outs' = length (rules rset')" by simp_all
    from h have c: "condition rset' = ?c"
      and f: "filter (\<lambda>p. p \<noteq> None) (map fst outs') = filter (\<lambda>p. p \<noteq> None) (map fst outs)"
      by simp_all
    from run_loop_complete [OF y l, of ?c]
    show "\<exists>results'. run rset' item' ex' = Inr (?flag (map fst outs), results')"
      unfolding run_def applicable_flag c f by blast
  qed
  have none: "(\<forall>out \<in> set outs. fst out = None) \<longrightarrow>
      run rset item ex = Inr (False, map snd outs)"
  proof
    assume a: "\<forall>out \<in> set outs. fst out = None"
    then have "\<forall>out \<in> set outs. fst out \<noteq> Some (?c = OR)" by simp
    from run_loop_all [OF assms this] a show "run rset item ex = Inr (False, map snd outs)"
      unfolding run_def by simp
  qed
  from r recorded same none show ?thesis
    by blast
qed

theorem run_not_applicable_witness:
  "run \<lparr>rules = [\<lambda>i s. Inr (None, 1), \<lambda>i s. Inr (None, 2)], condition = AND\<rparr> () [] =
     (Inr (False, [1, 2 :: nat]) :: unit + bool \<times> nat list) \<and>
   run \<lparr>rules = [\<lambda>i s. Inr (None, 1), \<lambda>i s. Inr (None, 2)], condition = OR\<rparr> () [] =
     (Inr (False, [1, 2 :: nat]) :: unit + bool \<times> nat list) \<and>
   run \<lparr>rules = [], condition = OR\<rparr> () [] = (Inr (False, []) :: unit + bool \<times> nat list) \<and>
   (\<exists>t results results'.
      run \<lparr>rules = [\<lambda>i s. Inr (None, 1), \<lambda>i s. Inr (Some True, 2)], condition = AND\<rparr> () [] =
        (Inr (t, results) :: unit + bool \<times> nat list) \<and>
      results ! 0 = 1 \<and>
      run \<lparr>rules = [\<lambda>i s. Inr (Some True, 5)], condition = AND\<rparr> () [] =
        (Inr (t, results') :: unit + bool \<times> nat list))"
proof -
  let ?N = "\<lambda>c. \<lparr>rules = [\<lambda>i s. Inr (None, 1), \<lambda>i s. Inr (None, 2)], condition = c\<rparr>
      :: (unit, nat, unit) RuleSet"
  let ?E = "\<lparr>rules = [], condition = OR\<rparr> :: (unit, nat, unit) RuleSet"
  have a: "run (?N AND) () [] = Inr (False, [1, 2])"
    using run_not_applicable [of "?N AND" "()" "[]" "[(None, 1), (None, 2)]", THEN conjunct2]
    by simp
  have b: "run (?N OR) () [] = Inr (False, [1, 2])"
    using run_not_applicable [of "?N OR" "()" "[]" "[(None, 1), (None, 2)]", THEN conjunct2]
    by simp
  have c: "run ?E () [] = Inr (False, [])"
    using run_not_applicable [of ?E "()" "[]" "[]", THEN conjunct2]
    by simp
  let ?A = "\<lparr>rules = [\<lambda>i s. Inr (None, 1), \<lambda>i s. Inr (Some True, 2)], condition = AND\<rparr>
      :: (unit, nat, unit) RuleSet"
  let ?B = "\<lparr>rules = [\<lambda>i s. Inr (Some True, 5)], condition = AND\<rparr> :: (unit, nat, unit) RuleSet"
  have "children_yield (rules ?A) () [] [(None, 1), (Some True, 2)]"
    and "length [(None, 1 :: nat), (Some True, 2)] = length (rules ?A)"
    by simp_all
  from run_not_applicable [OF this]
  obtain t results where r: "run ?A () [] = Inr (t, results)"
    and k: "\<forall>k < length [(None, 1 :: nat), (Some True, 2)].
               fst ([(None, 1 :: nat), (Some True, 2)] ! k) = None \<and>
               (\<forall>j < k. fst ([(None, 1 :: nat), (Some True, 2)] ! j) \<noteq> Some (condition ?A = OR)) \<longrightarrow>
               k < length results \<and> results ! k = snd ([(None, 1 :: nat), (Some True, 2)] ! k)"
    and s: "\<forall>(rset' :: (unit, nat, unit) RuleSet) item' ex' outs'.
               children_yield (rules rset') item' ex' outs' \<and>
               length outs' = length (rules rset') \<and>
               condition rset' = condition ?A \<and>
               filter (\<lambda>p. p \<noteq> None) (map fst outs') =
                 filter (\<lambda>p. p \<noteq> None) (map fst [(None, 1 :: nat), (Some True, 2)]) \<longrightarrow>
               (\<exists>results'. run rset' item' ex' = Inr (t, results'))"
    by (elim conjE exE)
  from k [THEN spec [of _ 0]] have k0: "results ! 0 = 1"
    by simp
  from s [THEN spec [of _ ?B], THEN spec [of _ "()"], THEN spec [of _ "[]"],
      THEN spec [of _ "[(Some True, 5)]"]]
  obtain results' where "run ?B () [] = Inr (t, results')"
    by auto
  with r k0 a b c show ?thesis
    by blast
qed


section \<open>Properties of the config resolver\<close>

subsection \<open>Insertion\<close>

lemma find_append_first:
  "find P (xs @ ys) = (case find P xs of Some x \<Rightarrow> Some x | None \<Rightarrow> find P ys)"
  by (induction xs) auto

lemma insertNamedRules_result:
  "insertNamedRules rs reg =
     (case find (\<lambda>r. map_of reg (toLowerCase r) = None) (rule_refs rs) of
        Some r \<Rightarrow> Inl (NoNamedRule r)
      | None \<Rightarrow> Inr (inlined_rules reg rs))"
  by (induction rs reg rule: insertNamedRules.induct)
    (auto simp: find_append_first split: option.splits sum.splits)

lemma insertNamedActions_result:
  "insertNamedActions as reg =
     (case find (\<lambda>a. map_of reg (toLowerCase a) = None) (action_refs as) of
        Some a \<Rightarrow> Inl (NoNamedAction a)
      | None \<Rightarrow> Inr (inlined_actions reg as))"
  by (induction as reg rule: insertNamedActions.induct)
    (auto split: option.splits sum.splits)

lemma inlined_rules_no_refs: "rule_refs rs = [] \<Longrightarrow> inlined_rules reg rs = rs"
  by (induction reg rs rule: inlined_rules.induct) auto

lemma inlined_actions_no_refs: "action_refs as = [] \<Longrightarrow> inlined_actions reg as = as"
  by (induction reg as rule: inlined_actions.induct) auto

lemma inlined_rules_length: "length (inlined_rules reg rs) = length rs"
  by (induction reg rs rule: inlined_rules.induct) auto

lemma inlined_actions_length: "length (inlined_actions reg as) = length as"
  by (induction reg as rule: inlined_actions.induct) auto

text \<open>
  C6. Insertion fails exactly when some string entry, at the top or inside a
  nested set, has no registry entry under its lower-cased name, and the error
  names the first such entry; otherwise it returns the list in which each
  string entry is replaced by the registered object, each nested set is
  resolved in the same way under its own condition and in the order of its
  members, and each inline object is left unchanged. The same holds for
  actions, which do not nest.
\<close>

theorem insertNamed_resolves:
  "(case find (\<lambda>r. map_of namedRules (toLowerCase r) = None) (rule_refs rs) of
      Some r \<Rightarrow> insertNamedRules rs namedRules = Inl (NoNamedRule r)
    | None \<Rightarrow>
        insertNamedRules rs namedRules = Inr (inlined_rules namedRules rs) \<and>
        length (inlined_rules namedRules rs) = length rs) \<and>
   (case find (\<lambda>a. map_of namedActions (toLowerCase a) = None) (action_refs as) of
      Some a \<Rightarrow> insertNamedActions as namedActions = Inl (NoNamedAction a)
    | None \<Rightarrow>
        insertNamedActions as namedActions = Inr (inlined_actions namedActions as) \<and>
        length (inlined_actions namedActions as) = length as)"
  by (simp add: insertNamedRules_result insertNamedActions_result
      inlined_rules_length inlined_actions_length split: option.splits)

theorem insertNamed_resolves_witness:
  "insertNamedRules
     [RuleName ''Foo'',
      RuleSetJson (Some OR) [RuleName ''FOO'', RuleObject \<lparr>kind = ''author'', name = None, body = 2\<rparr>],
      RuleObject \<lparr>kind = ''author'', name = None, body = 2\<rparr>]
     [(''foo'', \<lparr>kind = ''repeat'', name = Some ''Foo'', body = 1 :: nat\<rparr>)] =
   Inr [RuleObject \<lparr>kind = ''repeat'', name = Some ''Foo'', body = 1\<rparr>,
        RuleSetJson (Some OR)
          [RuleObject \<lparr>kind = ''repeat'', name = Some ''Foo'', body = 1\<rparr>,
           RuleObject \<lparr>kind = ''author'', name = None, body = 2\<rparr>],
        RuleObject \<lparr>kind = ''author'', name = None, body = 2\<rparr>] \<and>
   insertNamedRules [RuleSetJson None [RuleName ''Bar'']]
     [(''foo'', \<lparr>kind = ''repeat'', name = Some ''Foo'', body = 1 :: nat\<rparr>)] =
   Inl (NoNamedRule ''Bar'') \<and>
   insertNamedActions [ActionName ''Rm'', ActionName ''nope'']
     [(''rm'', \<lparr>kind = ''remove'', name = Some ''rm'', body = 0 :: nat\<rparr>)] =
   Inl (NoNamedAction ''nope'')"
proof -
  let ?reg = "[(''foo'', \<lparr>kind = ''repeat'', name = Some ''Foo'', body = 1 :: nat\<rparr>)]"
  let ?areg = "[(''rm'', \<lparr>kind = ''remove'', name = Some ''rm'', body = 0 :: nat\<rparr>)]"
  have lc: "toLowerCase ''Foo'' = ''foo''" "toLowerCase ''FOO'' = ''foo''"
    "toLowerCase ''Bar'' = ''bar''" "toLowerCase ''Rm'' = ''rm''" "toLowerCase ''nope'' = ''nope''"
    by (simp_all add: toLowerCase_def toLowerCase_char_def)
  have a: "insertNamedRules
     [RuleName ''Foo'',
      RuleSetJson (Some OR) [RuleName ''FOO'', RuleObject \<lparr>kind = ''author'', name = None, body = 2\<rparr>],
      RuleObject \<lparr>kind = ''author'', name = None, body = 2\<rparr>] ?reg =
   Inr [RuleObject \<lparr>kind = ''repeat'', name = Some ''Foo'', body = 1\<rparr>,
        RuleSetJson (Some OR)
          [RuleObject \<lparr>kind = ''repeat'', name = Some ''Foo'', body = 1\<rparr>,
           RuleObject \<lparr>kind = ''author'', name = None, body = 2\<rparr>],
        RuleObject \<lparr>kind = ''author'', name = None, body = 2\<rparr>]"
    using insertNamed_resolves [where namedRules = ?reg and rs =
      "[RuleName ''Foo'',
        RuleSetJson (Some OR) [RuleName ''FOO'', RuleObject \<lparr>kind = ''author'', name = None, body = 2\<rparr>],
        RuleObject \<lparr>kind = ''author'', name = None, body = 2\<rparr>]"
      and namedActions = ?areg and as = "[]", THEN conjunct1]
    by (simp add: lc del: insertNamedRules.simps)
  have b: "insertNamedRules [RuleSetJson None [RuleName ''Bar'']] ?reg = Inl (NoNamedRule ''Bar'') \<and>
     insertNamedActions [ActionName ''Rm'', ActionName ''nope''] ?areg = Inl (NoNamedAction ''nope'')"
    using insertNamed_resolves [where namedRules = ?reg and rs = "[RuleSetJson None [RuleName ''Bar'']]"
      and namedActions = ?areg and as = "[ActionName ''Rm'', ActionName ''nope'']"]
    by (simp add: lc del: insertNamedRules.simps insertNamedActions.simps)
  from a b show ?thesis by simp
qed

subsection \<open>Extraction\<close>

lemma addNamedRules_register_all:
  "addNamedRules objs reg = register_all normalizeName DuplicateRuleName objs reg"
  by (induction objs reg rule: addNamedRules.induct) (auto split: option.splits)

lemma extractNamedActions_register_all:
  "extractNamedActions as reg =
     register_all toLowerCase DuplicateActionName (named_actions as) reg"
  by (induction as reg rule: extractNamedActions.induct) (auto split: option.splits)

lemma register_all_append:
  "register_all key err (xs @ ys) reg =
     (case register_all key err xs reg of
        Inl e \<Rightarrow> Inl e
      | Inr reg' \<Rightarrow> register_all key err ys reg')"
  by (induction xs arbitrary: reg) (auto split: option.splits)

lemma register_all_extends:
  "register_all key err objs reg = Inr reg' \<Longrightarrow> \<exists>new. reg' = reg @ new"
proof (induction objs arbitrary: reg)
  case Nil
  then show ?case by simp
next
  case (Cons obj objs)
  then show ?case
    by (fastforce split: option.splits if_splits)
qed

lemma map_of_snoc:
  "map_of (reg @ [(k, v)]) k' =
     (case map_of reg k' of Some e \<Rightarrow> Some e | None \<Rightarrow> if k' = k then Some v else None)"
  by (simp add: map_add_def split: option.splits)

lemma register_all_registered:
  "register_all key err objs reg = Inr reg' \<Longrightarrow> map_of reg' k = registered key reg objs k"
proof (induction objs arbitrary: reg)
  case Nil
  then show ?case by (simp add: registered_def split: option.splits)
next
  case (Cons obj objs)
  from Cons.prems obtain n where n: "name obj = Some n"
    by (auto split: option.splits)
  show ?case
  proof (cases "map_of reg (key n)")
    case None
    with Cons.prems n have "register_all key err objs (reg @ [(key n, obj)]) = Inr reg'"
      by simp
    from Cons.IH [OF this] None n show ?thesis
      by (auto simp: registered_def key_of_def map_of_snoc map_add_def split: option.splits)
  next
    case (Some e)
    with Cons.prems n have "register_all key err objs reg = Inr reg'"
      by (simp split: if_splits)
    from Cons.IH [OF this] Some n show ?thesis
      by (auto simp: registered_def key_of_def split: option.splits)
  qed
qed

lemma register_all_distinct:
  "register_all key err objs reg = Inr reg' \<Longrightarrow> distinct (map fst reg) \<Longrightarrow>
   distinct (map fst reg')"
proof (induction objs arbitrary: reg)
  case Nil
  then show ?case by simp
next
  case (Cons obj objs)
  from Cons.prems obtain n where n: "name obj = Some n"
    by (auto split: option.splits)
  show ?case
  proof (cases "map_of reg (key n)")
    case None
    with Cons.prems n have r: "register_all key err objs (reg @ [(key n, obj)]) = Inr reg'"
      by simp
    from None have "key n \<notin> fst ` set reg"
      by (simp add: map_of_eq_None_iff)
    with Cons.prems(2) have "distinct (map fst (reg @ [(key n, obj)]))"
      by simp
    from Cons.IH [OF r this] show ?thesis .
  next
    case (Some e)
    with Cons.prems n have "register_all key err objs reg = Inr reg'"
      by (simp split: if_splits)
    from Cons.IH [OF this Cons.prems(2)] show ?thesis .
  qed
qed

lemma agree_sym: "agree key a b = agree key b a"
  by (cases "key_of key a"; cases "key_of key b") (auto simp: agree_def)

lemma agree_refl: "agree key a a"
  by (simp add: agree_def)

lemma conflict_free_Cons:
  "conflict_free key reg (a # objs) =
     (fits key reg a \<and> (\<forall>b \<in> set objs. agree key a b) \<and> conflict_free key reg objs)"
  using agree_sym [of key] by (auto simp: conflict_free_def agree_refl)

lemma fits_snoc:
  assumes "map_of reg k = None" and "key_of key a = Some k"
  shows "fits key (reg @ [(k, a)]) b = (fits key reg b \<and> agree key a b)"
  using assms
  by (cases "key_of key b") (auto simp: fits_def agree_def map_of_snoc split: option.splits)

lemma conflict_free_snoc:
  assumes "map_of reg k = None" and "key_of key a = Some k"
  shows "conflict_free key (reg @ [(k, a)]) objs = conflict_free key reg (a # objs)"
proof -
  from assms have "fits key reg a"
    by (simp add: fits_def)
  then show ?thesis
    unfolding conflict_free_Cons
    by (auto simp: conflict_free_def fits_snoc [OF assms])
qed

lemma conflict_free_known:
  assumes "map_of reg k = Some e" and "key_of key a = Some k" and "noName e = noName a"
  shows "conflict_free key reg (a # objs) = conflict_free key reg objs"
proof -
  from assms have a: "fits key reg a"
    by (simp add: fits_def)
  have "\<forall>b \<in> set objs. agree key a b" if "conflict_free key reg objs"
  proof
    fix b assume "b \<in> set objs"
    with that have "fits key reg b" by (simp add: conflict_free_def)
    with assms show "agree key a b"
      by (cases "key_of key b") (auto simp: fits_def agree_def)
  qed
  with a show ?thesis
    unfolding conflict_free_Cons by blast
qed

lemma register_all_succeeds:
  assumes "\<forall>obj \<in> set objs. name obj \<noteq> None"
  shows "(\<exists>reg'. register_all key err objs reg = Inr reg') = conflict_free key reg objs"
  using assms
proof (induction objs arbitrary: reg)
  case Nil
  then show ?case by (simp add: conflict_free_def)
next
  case (Cons obj objs)
  then obtain n where n: "name obj = Some n"
    by auto
  then have k: "key_of key obj = Some (key n)"
    by (simp add: key_of_def)
  from Cons.prems have named: "\<forall>obj \<in> set objs. name obj \<noteq> None"
    by simp
  show ?case
  proof (cases "map_of reg (key n)")
    case None
    then have "register_all key err (obj # objs) reg =
        register_all key err objs (reg @ [(key n, obj)])"
      using n by simp
    with Cons.IH [OF named, of "reg @ [(key n, obj)]"] conflict_free_snoc [OF None k, of objs]
    show ?thesis by simp
  next
    case (Some e)
    show ?thesis
    proof (cases "noName e = noName obj")
      case True
      with Some n have "register_all key err (obj # objs) reg = register_all key err objs reg"
        by simp
      with Cons.IH [OF named, of reg] conflict_free_known [OF Some k True, of objs]
      show ?thesis by simp
    next
      case False
      with Some k have "\<not> fits key reg obj"
        by (simp add: fits_def)
      with False Some n show ?thesis
        by (simp add: conflict_free_Cons)
    qed
  qed
qed

lemma register_all_error:
  assumes "register_all key err objs reg = Inl e"
    and "\<forall>obj \<in> set objs. name obj \<noteq> None"
  shows "\<exists>obj \<in> set objs. \<exists>n. name obj = Some n \<and> e = err n \<and>
           (\<not> fits key reg obj \<or> (\<exists>b \<in> set objs. \<not> agree key b obj))"
  using assms
proof (induction objs arbitrary: reg)
  case Nil
  then show ?case by simp
next
  case (Cons obj objs)
  then obtain n where n: "name obj = Some n"
    by auto
  then have k: "key_of key obj = Some (key n)"
    by (simp add: key_of_def)
  from Cons.prems have named: "\<forall>obj \<in> set objs. name obj \<noteq> None"
    by simp
  show ?case
  proof (cases "map_of reg (key n)")
    case None
    with Cons.prems(1) n have "register_all key err objs (reg @ [(key n, obj)]) = Inl e"
      by simp
    from Cons.IH [OF this named] obtain b m where b: "b \<in> set objs" "name b = Some m" "e = err m"
      and c: "\<not> fits key (reg @ [(key n, obj)]) b \<or> (\<exists>a \<in> set objs. \<not> agree key a b)"
      by blast
    from c have "\<not> fits key reg b \<or> (\<exists>a \<in> set (obj # objs). \<not> agree key a b)"
      unfolding fits_snoc [OF None k] by auto
    with b show ?thesis by auto
  next
    case (Some e')
    show ?thesis
    proof (cases "noName e' = noName obj")
      case True
      with Some n Cons.prems(1) have "register_all key err objs reg = Inl e"
        by simp
      from Cons.IH [OF this named] show ?thesis by auto
    next
      case False
      with Some k have "\<not> fits key reg obj"
        by (simp add: fits_def)
      moreover from False Some n Cons.prems(1) have "e = err n"
        by simp
      ultimately show ?thesis using n by auto
    qed
  qed
qed

lemma register_all_named:
  "register_all key err objs reg = Inr reg' \<Longrightarrow> \<forall>obj \<in> set objs. name obj \<noteq> None"
  by (induction objs arbitrary: reg) (auto split: option.splits if_splits)

lemma register_all_holds:
  assumes "register_all key err objs reg = Inr reg'"
    and "obj \<in> set objs" and "name obj = Some n"
  shows "\<exists>e. map_of reg' (key n) = Some e \<and> noName e = noName obj"
proof -
  from assms(3) have k: "key_of key obj = Some (key n)"
    by (simp add: key_of_def)
  from register_all_named [OF assms(1)] register_all_succeeds [of objs key err reg] assms(1)
  have cf: "conflict_free key reg objs"
    by blast
  have m: "map_of reg' (key n) = registered key reg objs (key n)"
    by (rule register_all_registered [OF assms(1)])
  show ?thesis
  proof (cases "map_of reg (key n)")
    case (Some e)
    moreover from cf assms(2) have "fits key reg obj"
      by (simp add: conflict_free_def)
    ultimately show ?thesis
      using m k by (simp add: registered_def fits_def)
  next
    case None
    from assms(2) k obtain b where b: "find (\<lambda>x. key_of key x = Some (key n)) objs = Some b"
      by (cases "find (\<lambda>x. key_of key x = Some (key n)) objs") (auto simp: find_None_iff)
    then have "b \<in> set objs" and kb: "key_of key b = Some (key n)"
      by (auto simp: find_Some_iff)
    with cf assms(2) have "agree key b obj"
      by (simp add: conflict_free_def)
    with kb k have "noName b = noName obj"
      by (simp add: agree_def)
    with None b m show ?thesis
      by (simp add: registered_def)
  qed
qed

lemma register_all_values:
  assumes "register_all key err objs nested = Inr nested'"
    and "register_all key err (map snd nested) reg = Inr reg'"
    and "\<forall>(k, e) \<in> set nested. key_of key e = Some k"
  shows "register_all key err (map snd nested') reg = register_all key err objs reg'"
  using assms
proof (induction objs arbitrary: nested reg')
  case Nil
  then show ?case by simp
next
  case (Cons obj objs)
  from Cons.prems(1) obtain n where n: "name obj = Some n"
    by (auto split: option.splits)
  then have k: "key_of key obj = Some (key n)"
    by (simp add: key_of_def)
  show ?case
  proof (cases "map_of nested (key n)")
    case (Some e)
    with Cons.prems(1) n have eq: "noName e = noName obj"
      and rest: "register_all key err objs nested = Inr nested'"
      by (auto split: if_splits)
    from Some have mem: "(key n, e) \<in> set nested"
      by (rule map_of_SomeD)
    with Cons.prems(3) have "key_of key e = Some (key n)"
      by auto
    then obtain m where m: "name e = Some m" "key m = key n"
      by (auto simp: key_of_def)
    from mem have "e \<in> set (map snd nested)"
      by force
    from register_all_holds [OF Cons.prems(2) this m(1)] m(2) eq
    obtain e' where "map_of reg' (key n) = Some e'" "noName e' = noName obj"
      by auto
    with n have "register_all key err (obj # objs) reg' = register_all key err objs reg'"
      by simp
    with Cons.IH [OF rest Cons.prems(2,3)] show ?thesis
      by simp
  next
    case None
    let ?nested1 = "nested @ [(key n, obj)]"
    from None Cons.prems(1) n have rest: "register_all key err objs ?nested1 = Inr nested'"
      by simp
    from Cons.prems(3) k have inv: "\<forall>(k, e) \<in> set ?nested1. key_of key e = Some k"
      by auto
    have step: "register_all key err (map snd ?nested1) reg = register_all key err [obj] reg'"
      using Cons.prems(2) by (simp add: register_all_append)
    show ?thesis
    proof (cases "register_all key err [obj] reg'")
      case (Inr reg1)
      with step have "register_all key err (map snd ?nested1) reg = Inr reg1"
        by simp
      from Cons.IH [OF rest this inv]
      have "register_all key err (map snd nested') reg = register_all key err objs reg1" .
      moreover from Inr have "register_all key err (obj # objs) reg' = register_all key err objs reg1"
        using register_all_append [of key err "[obj]" objs reg'] by simp
      ultimately show ?thesis by simp
    next
      case (Inl e)
      from register_all_extends [OF rest] obtain new where "nested' = ?nested1 @ new"
        by blast
      then have "register_all key err (map snd nested') reg =
          register_all key err (map snd ?nested1 @ map snd new) reg"
        by simp
      also have "\<dots> = Inl e"
        unfolding register_all_append [of key err "map snd ?nested1"] step Inl by simp
      finally show ?thesis
        using Inl register_all_append [of key err "[obj]" objs reg'] by simp
    qed
  qed
qed

lemma named_rules_named: "\<forall>obj \<in> set (named_rules rs). name obj \<noteq> None"
  by (induction rs rule: named_rules.induct) auto

lemma named_actions_named: "\<forall>obj \<in> set (named_actions as). name obj \<noteq> None"
  by (induction as rule: named_actions.induct) auto

lemma culprit_lift:
  assumes "register_all key err before reg = Inr reg1"
    and "\<not> fits key reg1 obj \<or> (\<exists>b \<in> set after. \<not> agree key b obj)"
  shows "\<not> fits key reg obj \<or> (\<exists>b \<in> set (before @ after). \<not> agree key b obj)"
proof (cases "fits key reg1 obj")
  case True
  with assms(2) show ?thesis by auto
next
  case False
  then obtain k e where k: "key_of key obj = Some k" and e: "map_of reg1 k = Some e"
    and ne: "noName e \<noteq> noName obj"
    by (auto simp: fits_def split: option.splits)
  from register_all_registered [OF assms(1), of k] e
  have r: "registered key reg before k = Some e"
    by simp
  show ?thesis
  proof (cases "map_of reg k")
    case (Some e')
    with r have "e' = e" by (simp add: registered_def)
    with Some k ne show ?thesis by (simp add: fits_def)
  next
    case None
    with r have "find (\<lambda>x. key_of key x = Some k) before = Some e"
      by (simp add: registered_def)
    then have "e \<in> set before" "key_of key e = Some k"
      by (auto simp: find_Some_iff)
    with k ne have "e \<in> set (before @ after)" "\<not> agree key e obj"
      by (auto simp: agree_def)
    then show ?thesis by blast
  qed
qed

lemma register_all_conflicting:
  assumes "register_all key err objs reg = Inl e"
    and "\<forall>obj \<in> set objs. name obj \<noteq> None"
  shows "\<exists>n. e = err n \<and> conflicting_name key reg objs n"
  using register_all_error [OF assms] unfolding conflicting_name_def by blast

lemma conflicting_name_lift:
  assumes "register_all key err before reg = Inr reg1"
    and "conflicting_name key reg1 after n"
  shows "conflicting_name key reg (before @ after) n"
proof -
  from assms(2) obtain obj where obj: "obj \<in> set after" "name obj = Some n"
    and c: "\<not> fits key reg1 obj \<or> (\<exists>b \<in> set after. \<not> agree key b obj)"
    unfolding conflicting_name_def by blast
  from culprit_lift [OF assms(1) c] obj show ?thesis
    unfolding conflicting_name_def by auto
qed

lemma conflicting_name_nested:
  assumes "conflicting_name key [] inner n"
  shows "conflicting_name key reg (inner @ after) n"
  using assms unfolding conflicting_name_def by (auto simp: fits_def split: option.splits)

lemma extractNamedRules_flat:
  "(case extractNamedRules rs reg of
      Inr reg' \<Rightarrow> register_all normalizeName DuplicateRuleName (named_rules rs) reg = Inr reg'
    | Inl e \<Rightarrow>
        (\<exists>e'. register_all normalizeName DuplicateRuleName (named_rules rs) reg = Inl e') \<and>
        (\<exists>n. e = DuplicateRuleName n \<and>
           conflicting_name normalizeName reg (named_rules rs) n))"
proof (induction rs reg rule: extractNamedRules.induct)
  case (1 namedRules)
  show ?case by simp
next
  case (2 s rs namedRules)
  then show ?case by (simp split: sum.splits)
next
  case (3 rule rs namedRules)
  let ?reg = "register_all normalizeName DuplicateRuleName"
  let ?one = "if name rule \<noteq> None then [rule] else []"
  have flat: "?reg (named_rules (RuleObject rule # rs)) namedRules =
      (case ?reg ?one namedRules of Inl e \<Rightarrow> Inl e | Inr r \<Rightarrow> ?reg (named_rules rs) r)"
    by (simp only: named_rules.simps register_all_append)
  have named: "\<forall>obj \<in> set (named_rules (RuleObject rule # rs)). name obj \<noteq> None"
    by (rule named_rules_named)
  show ?case
  proof (cases "?reg ?one namedRules")
    case (Inl e)
    with flat have f: "?reg (named_rules (RuleObject rule # rs)) namedRules = Inl e"
      by simp
    from register_all_conflicting [OF f named] f Inl show ?thesis
      by (simp add: addNamedRules_register_all)
  next
    case (Inr reg1)
    then have a: "addNamedRules ?one namedRules = Inr reg1"
      by (simp add: addNamedRules_register_all)
    note IH = 3 [OF a]
    show ?thesis
    proof (cases "extractNamedRules rs reg1")
      case r: (Inr reg')
      with IH flat Inr a show ?thesis by simp
    next
      case l: (Inl e)
      with IH obtain e' n where e': "?reg (named_rules rs) reg1 = Inl e'"
        and n: "e = DuplicateRuleName n" "conflicting_name normalizeName reg1 (named_rules rs) n"
        by auto
      from conflicting_name_lift [OF Inr n(2)]
      have "conflicting_name normalizeName namedRules (named_rules (RuleObject rule # rs)) n"
        by simp
      with e' n(1) flat Inr a l show ?thesis by simp
    qed
  qed
next
  case (4 c sr rs namedRules)
  let ?reg = "register_all normalizeName DuplicateRuleName"
  have flat: "?reg (named_rules (RuleSetJson c sr # rs)) namedRules =
      (case ?reg (named_rules sr) namedRules of
         Inl e \<Rightarrow> Inl e
       | Inr r \<Rightarrow> ?reg (named_rules rs) r)"
    by (simp only: named_rules.simps register_all_append)
  have named: "\<forall>obj \<in> set (named_rules (RuleSetJson c sr # rs)). name obj \<noteq> None"
    by (rule named_rules_named)
  show ?case
  proof (cases "extractNamedRules sr []")
    case (Inl e)
    with "4.IH"(1) obtain e' n where e': "?reg (named_rules sr) [] = Inl e'"
      and n: "e = DuplicateRuleName n" "conflicting_name normalizeName [] (named_rules sr) n"
      by auto
    from e' have "\<not> conflict_free normalizeName [] (named_rules sr)"
      using register_all_succeeds [OF named_rules_named [of sr], of normalizeName DuplicateRuleName "[]"]
      by simp
    then have "\<not> conflict_free normalizeName namedRules (named_rules (RuleSetJson c sr # rs))"
      by (auto simp: conflict_free_def fits_def split: option.splits)
    then have "\<exists>e'. ?reg (named_rules (RuleSetJson c sr # rs)) namedRules = Inl e'"
      using register_all_succeeds [OF named, of normalizeName DuplicateRuleName namedRules]
      by (cases "?reg (named_rules (RuleSetJson c sr # rs)) namedRules") auto
    moreover from conflicting_name_nested [OF n(2)]
    have "conflicting_name normalizeName namedRules (named_rules (RuleSetJson c sr # rs)) n"
      by simp
    ultimately show ?thesis using Inl n(1) by simp
  next
    case (Inr nestedNamed)
    with "4.IH"(1) have nested: "?reg (named_rules sr) [] = Inr nestedNamed"
      by simp
    have "?reg (map snd nestedNamed) namedRules = ?reg (named_rules sr) namedRules"
      by (rule register_all_values [OF nested]) simp_all
    then have merge: "addNamedRules (map snd nestedNamed) namedRules =
        ?reg (named_rules sr) namedRules"
      by (simp add: addNamedRules_register_all)
    show ?thesis
    proof (cases "?reg (named_rules sr) namedRules")
      case (Inl e)
      with flat have f: "?reg (named_rules (RuleSetJson c sr # rs)) namedRules = Inl e"
        by simp
      from register_all_conflicting [OF f named] f Inl Inr merge show ?thesis
        by simp
    next
      case reg1: (Inr reg1)
      with merge have a: "addNamedRules (map snd nestedNamed) namedRules = Inr reg1"
        by simp
      note IH = "4.IH"(2) [OF Inr a]
      show ?thesis
      proof (cases "extractNamedRules rs reg1")
        case (Inr reg')
        with IH flat reg1 a \<open>extractNamedRules sr [] = Inr nestedNamed\<close> show ?thesis
          by simp
      next
        case (Inl e)
        with IH obtain e' n where e': "?reg (named_rules rs) reg1 = Inl e'"
          and n: "e = DuplicateRuleName n"
            "conflicting_name normalizeName reg1 (named_rules rs) n"
          by auto
        from conflicting_name_lift [OF reg1 n(2)]
        have "conflicting_name normalizeName namedRules (named_rules (RuleSetJson c sr # rs)) n"
          by simp
        with e' n(1) flat reg1 a Inl \<open>extractNamedRules sr [] = Inr nestedNamed\<close>
        show ?thesis by simp
      qed
    qed
  qed
qed

lemma extractNamedRules_succeeds:
  "(\<exists>reg'. extractNamedRules rs reg = Inr reg') =
   conflict_free normalizeName reg (named_rules rs)"
  using extractNamedRules_flat [of rs reg]
    register_all_succeeds [OF named_rules_named [of rs], of normalizeName DuplicateRuleName reg]
  by (cases "extractNamedRules rs reg") auto

lemma extractNamedRules_Inr:
  "extractNamedRules rs reg = Inr reg' \<Longrightarrow>
   register_all normalizeName DuplicateRuleName (named_rules rs) reg = Inr reg'"
  using extractNamedRules_flat [of rs reg] by simp

lemma extractNamedRules_Inl:
  "extractNamedRules rs reg = Inl e \<Longrightarrow>
   \<exists>n. e = DuplicateRuleName n \<and> conflicting_name normalizeName reg (named_rules rs) n"
  using extractNamedRules_flat [of rs reg] by simp

lemma extractNamedActions_Inl:
  "extractNamedActions as reg = Inl e \<Longrightarrow>
   \<exists>n. e = DuplicateActionName n \<and> conflicting_name toLowerCase reg (named_actions as) n"
  unfolding extractNamedActions_register_all
  by (rule register_all_conflicting [OF _ named_actions_named])

text \<open>
  C5. Extraction of rules registers under \<open>normalizeName\<close> of the name,
  extraction of actions under the lower-cased name, which is not trimmed. For
  either, with the key taken accordingly: extraction succeeds exactly when
  every named object fits the registry it starts from and any two named objects
  with the same key are equal apart from the name. After a success the registry
  keeps the entries it had and holds, under every other key, the first object
  met with this key, so each named object finds under its key an entry equal
  to it apart from the name, and the keys stay distinct. A failure is the
  duplicate-name error of a name that is conflicting.
\<close>

theorem extractNamed_registers:
  "((\<exists>reg'. extractNamedRules rs namedRules = Inr reg') =
      conflict_free normalizeName namedRules (named_rules rs)) \<and>
   (\<forall>reg'. extractNamedRules rs namedRules = Inr reg' \<longrightarrow>
      (\<forall>k. map_of reg' k = registered normalizeName namedRules (named_rules rs) k) \<and>
      (\<forall>obj \<in> set (named_rules rs). \<forall>n. name obj = Some n \<longrightarrow>
         (\<exists>e. map_of reg' (normalizeName n) = Some e \<and> noName e = noName obj)) \<and>
      (distinct (map fst namedRules) \<longrightarrow> distinct (map fst reg'))) \<and>
   (\<forall>e. extractNamedRules rs namedRules = Inl e \<longrightarrow>
      (\<exists>n. e = DuplicateRuleName n \<and>
         conflicting_name normalizeName namedRules (named_rules rs) n)) \<and>
   ((\<exists>reg'. extractNamedActions as namedActions = Inr reg') =
      conflict_free toLowerCase namedActions (named_actions as)) \<and>
   (\<forall>reg'. extractNamedActions as namedActions = Inr reg' \<longrightarrow>
      (\<forall>k. map_of reg' k = registered toLowerCase namedActions (named_actions as) k) \<and>
      (\<forall>obj \<in> set (named_actions as). \<forall>n. name obj = Some n \<longrightarrow>
         (\<exists>e. map_of reg' (toLowerCase n) = Some e \<and> noName e = noName obj)) \<and>
      (distinct (map fst namedActions) \<longrightarrow> distinct (map fst reg'))) \<and>
   (\<forall>e. extractNamedActions as namedActions = Inl e \<longrightarrow>
      (\<exists>n. e = DuplicateActionName n \<and>
         conflicting_name toLowerCase namedActions (named_actions as) n))"
proof -
  have r1: "(\<exists>reg'. extractNamedRules rs namedRules = Inr reg') =
      conflict_free normalizeName namedRules (named_rules rs)"
    by (rule extractNamedRules_succeeds)
  have r2: "\<forall>reg'. extractNamedRules rs namedRules = Inr reg' \<longrightarrow>
      (\<forall>k. map_of reg' k = registered normalizeName namedRules (named_rules rs) k) \<and>
      (\<forall>obj \<in> set (named_rules rs). \<forall>n. name obj = Some n \<longrightarrow>
         (\<exists>e. map_of reg' (normalizeName n) = Some e \<and> noName e = noName obj)) \<and>
      (distinct (map fst namedRules) \<longrightarrow> distinct (map fst reg'))"
  proof (intro allI impI)
    fix reg' assume "extractNamedRules rs namedRules = Inr reg'"
    then have f: "register_all normalizeName DuplicateRuleName (named_rules rs) namedRules = Inr reg'"
      by (rule extractNamedRules_Inr)
    show "(\<forall>k. map_of reg' k = registered normalizeName namedRules (named_rules rs) k) \<and>
      (\<forall>obj \<in> set (named_rules rs). \<forall>n. name obj = Some n \<longrightarrow>
         (\<exists>e. map_of reg' (normalizeName n) = Some e \<and> noName e = noName obj)) \<and>
      (distinct (map fst namedRules) \<longrightarrow> distinct (map fst reg'))"
      using register_all_registered [OF f] register_all_holds [OF f] register_all_distinct [OF f]
      by blast
  qed
  have r3: "\<forall>e. extractNamedRules rs namedRules = Inl e \<longrightarrow>
      (\<exists>n. e = DuplicateRuleName n \<and>
         conflicting_name normalizeName namedRules (named_rules rs) n)"
    using extractNamedRules_Inl by blast
  have a1: "(\<exists>reg'. extractNamedActions as namedActions = Inr reg') =
      conflict_free toLowerCase namedActions (named_actions as)"
    unfolding extractNamedActions_register_all
    by (rule register_all_succeeds [OF named_actions_named])
  have a2: "\<forall>reg'. extractNamedActions as namedActions = Inr reg' \<longrightarrow>
      (\<forall>k. map_of reg' k = registered toLowerCase namedActions (named_actions as) k) \<and>
      (\<forall>obj \<in> set (named_actions as). \<forall>n. name obj = Some n \<longrightarrow>
         (\<exists>e. map_of reg' (toLowerCase n) = Some e \<and> noName e = noName obj)) \<and>
      (distinct (map fst namedActions) \<longrightarrow> distinct (map fst reg'))"
  proof (intro allI impI)
    fix reg' assume "extractNamedActions as namedActions = Inr reg'"
    then have f: "register_all toLowerCase DuplicateActionName (named_actions as) namedActions =
        Inr reg'"
      by (simp add: extractNamedActions_register_all)
    show "(\<forall>k. map_of reg' k = registered toLowerCase namedActions (named_actions as) k) \<and>
      (\<forall>obj \<in> set (named_actions as). \<forall>n. name obj = Some n \<longrightarrow>
         (\<exists>e. map_of reg' (toLowerCase n) = Some e \<and> noName e = noName obj)) \<and>
      (distinct (map fst namedActions) \<longrightarrow> distinct (map fst reg'))"
      using register_all_registered [OF f] register_all_holds [OF f] register_all_distinct [OF f]
      by blast
  qed
  have a3: "\<forall>e. extractNamedActions as namedActions = Inl e \<longrightarrow>
      (\<exists>n. e = DuplicateActionName n \<and>
         conflicting_name toLowerCase namedActions (named_actions as) n)"
    using extractNamedActions_Inl by blast
  from r1 r2 r3 a1 a2 a3 show ?thesis
    by (intro conjI)
qed

theorem extractNamed_registers_witness:
  "(\<exists>reg'. extractNamedRules
       [RuleObject \<lparr>kind = ''author'', name = Some ''Foo'', body = 1 :: nat\<rparr>,
        RuleSetJson None
          [RuleObject \<lparr>kind = ''author'', name = Some '' foo '', body = 1\<rparr>,
           RuleObject \<lparr>kind = ''repeat'', name = Some ''Bar'', body = 2\<rparr>]] [] = Inr reg' \<and>
      map_of reg' ''foo'' = Some \<lparr>kind = ''author'', name = Some ''Foo'', body = 1\<rparr> \<and>
      map_of reg' ''bar'' = Some \<lparr>kind = ''repeat'', name = Some ''Bar'', body = 2\<rparr>) \<and>
   (\<exists>n. extractNamedRules
       [RuleObject \<lparr>kind = ''author'', name = Some ''Foo'', body = 1 :: nat\<rparr>,
        RuleSetJson None [RuleObject \<lparr>kind = ''author'', name = Some '' foo '', body = 3\<rparr>]] [] =
      Inl (DuplicateRuleName n)) \<and>
   (\<exists>n. extractNamedActions
       [ActionObject \<lparr>kind = ''comment'', name = Some ''A'', body = 1 :: nat\<rparr>,
        ActionObject \<lparr>kind = ''comment'', name = Some ''a'', body = 2\<rparr>] [] =
      Inl (DuplicateActionName n))"
proof -
  let ?foo = "\<lparr>kind = ''author'', name = Some ''Foo'', body = 1 :: nat\<rparr>"
  let ?foo' = "\<lparr>kind = ''author'', name = Some '' foo '', body = 1 :: nat\<rparr>"
  let ?foo3 = "\<lparr>kind = ''author'', name = Some '' foo '', body = 3 :: nat\<rparr>"
  let ?bar = "\<lparr>kind = ''repeat'', name = Some ''Bar'', body = 2 :: nat\<rparr>"
  let ?ok = "[RuleObject ?foo, RuleSetJson None [RuleObject ?foo', RuleObject ?bar]]"
  let ?bad = "[RuleObject ?foo, RuleSetJson None [RuleObject ?foo3]]"
  let ?A = "\<lparr>kind = ''comment'', name = Some ''A'', body = 1 :: nat\<rparr>"
  let ?a = "\<lparr>kind = ''comment'', name = Some ''a'', body = 2 :: nat\<rparr>"
  let ?acts = "[ActionObject ?A, ActionObject ?a]"
  have names: "normalizeName ''Foo'' = ''foo''" "normalizeName '' foo '' = ''foo''"
    "normalizeName ''Bar'' = ''bar''" "toLowerCase ''A'' = ''a''" "toLowerCase ''a'' = ''a''"
    by (simp_all add: normalizeName_def trim_def isWhiteSpace_def toLowerCase_def
        toLowerCase_char_def)
  note ev = conflict_free_def fits_def agree_def key_of_def noName_def registered_def names
  note ok = extractNamed_registers [where rs = ?ok and namedRules = "[]" and as = "[]"
      and namedActions = "[]"]
  from ok have "\<exists>reg'. extractNamedRules ?ok [] = Inr reg'"
    by (simp add: ev del: extractNamedRules.simps)
  then obtain reg' where reg': "extractNamedRules ?ok [] = Inr reg'" ..
  with ok have "\<forall>k. map_of reg' k = registered normalizeName [] (named_rules ?ok) k"
    by blast
  then have "map_of reg' ''foo'' = Some ?foo" "map_of reg' ''bar'' = Some ?bar"
    by (simp_all add: ev)
  with reg' have one: "\<exists>reg'. extractNamedRules ?ok [] = Inr reg' \<and>
      map_of reg' ''foo'' = Some ?foo \<and> map_of reg' ''bar'' = Some ?bar"
    by blast
  note bad = extractNamed_registers [where rs = ?bad and namedRules = "[]" and as = ?acts
      and namedActions = "[]"]
  from bad have "\<not> (\<exists>reg'. extractNamedRules ?bad [] = Inr reg')"
    by (simp add: ev del: extractNamedRules.simps)
  then obtain e where "extractNamedRules ?bad [] = Inl e"
    by (cases "extractNamedRules ?bad []") auto
  with bad have two: "\<exists>n. extractNamedRules ?bad [] = Inl (DuplicateRuleName n)"
    by blast
  from bad have "\<not> (\<exists>reg'. extractNamedActions ?acts [] = Inr reg')"
    by (simp add: ev del: extractNamedActions.simps)
  then obtain e where "extractNamedActions ?acts [] = Inl e"
    by (cases "extractNamedActions ?acts []") auto
  with bad have three: "\<exists>n. extractNamedActions ?acts [] = Inl (DuplicateActionName n)"
    by blast
  from one two three show ?thesis
    by blast
qed

theorem extractNamedActions_untrimmed:
  "normalizeName '' rm'' = normalizeName ''rm'' \<and>
   noName \<lparr>kind = ''remove'', name = Some '' rm'', body = 1 :: nat\<rparr> \<noteq>
   noName \<lparr>kind = ''remove'', name = Some ''rm'', body = 2 :: nat\<rparr> \<and>
   extractNamedActions
     [ActionObject \<lparr>kind = ''remove'', name = Some '' rm'', body = 1 :: nat\<rparr>,
      ActionObject \<lparr>kind = ''remove'', name = Some ''rm'', body = 2\<rparr>] [] =
   Inr [('' rm'', \<lparr>kind = ''remove'', name = Some '' rm'', body = 1\<rparr>),
        (''rm'', \<lparr>kind = ''remove'', name = Some ''rm'', body = 2\<rparr>)]"
  by (simp add: normalizeName_def trim_def isWhiteSpace_def toLowerCase_def
      toLowerCase_char_def noName_def)

subsection \<open>Fully inlined configs\<close>

lemma register_all_append_succeeds:
  "(\<exists>r. register_all key err (xs @ ys) reg = Inr r) =
   (\<exists>reg1. register_all key err xs reg = Inr reg1 \<and> (\<exists>r. register_all key err ys reg1 = Inr r))"
  by (cases "register_all key err xs reg") (auto simp: register_all_append)

lemma extractChecks_succeeds:
  "(\<exists>r. extractChecks cs namedRules namedActions = Inr r) =
   ((\<exists>r. register_all normalizeName DuplicateRuleName (all_named_rules cs) namedRules = Inr r) \<and>
    (\<exists>r. register_all toLowerCase DuplicateActionName (all_named_actions cs) namedActions = Inr r))"
proof (induction cs arbitrary: namedRules namedActions)
  case Nil
  show ?case by (simp add: all_named_rules_def all_named_actions_def)
next
  case (Cons c cs)
  let ?R = "register_all normalizeName DuplicateRuleName"
  let ?A = "register_all toLowerCase DuplicateActionName"
  have rules: "all_named_rules (c # cs) = named_rules (rules_or_empty c) @ all_named_rules cs"
    and actions: "all_named_actions (c # cs) = named_actions (check_actions c) @ all_named_actions cs"
    by (simp_all add: all_named_rules_def all_named_actions_def)
  show ?case
  proof (cases "extractNamedRules (rules_or_empty c) namedRules")
    case (Inl e)
    with extractNamedRules_flat [of "rules_or_empty c" namedRules]
    have "\<exists>e'. ?R (named_rules (rules_or_empty c)) namedRules = Inl e'"
      by simp
    with Inl show ?thesis
      unfolding rules register_all_append_succeeds by auto
  next
    case nr: (Inr namedRules')
    then have fr: "?R (named_rules (rules_or_empty c)) namedRules = Inr namedRules'"
      by (rule extractNamedRules_Inr)
    show ?thesis
    proof (cases "extractNamedActions (check_actions c) namedActions")
      case (Inl e)
      then have "?A (named_actions (check_actions c)) namedActions = Inl e"
        by (simp add: extractNamedActions_register_all)
      with Inl nr show ?thesis
        unfolding actions register_all_append_succeeds by auto
    next
      case (Inr namedActions')
      then have fa: "?A (named_actions (check_actions c)) namedActions = Inr namedActions'"
        by (simp add: extractNamedActions_register_all)
      from nr Inr have "extractChecks (c # cs) namedRules namedActions =
          extractChecks cs namedRules' namedActions'"
        by simp
      with Cons.IH [of namedRules' namedActions'] fr fa show ?thesis
        unfolding rules actions register_all_append_succeeds by simp
    qed
  qed
qed

lemma extractChecks_error:
  "extractChecks cs namedRules namedActions = Inl e \<Longrightarrow>
   \<exists>n. e = DuplicateRuleName n \<or> e = DuplicateActionName n"
proof (induction cs arbitrary: namedRules namedActions)
  case Nil
  then show ?case by simp
next
  case (Cons c cs)
  then show ?case
    using extractNamedRules_Inl [of "rules_or_empty c" namedRules]
      extractNamedActions_Inl [of "check_actions c" namedActions]
    by (auto split: sum.splits)
qed

lemma all_named_rules_named: "\<forall>obj \<in> set (all_named_rules cs). name obj \<noteq> None"
  using named_rules_named by (auto simp: all_named_rules_def)

lemma all_named_actions_named: "\<forall>obj \<in> set (all_named_actions cs). name obj \<noteq> None"
  using named_actions_named by (auto simp: all_named_actions_def)

lemma insertChecks_inlined:
  "\<forall>c \<in> set cs. inlined_check c \<Longrightarrow> insertChecks cs namedRules namedActions = Inr cs"
proof (induction cs)
  case Nil
  show ?case by simp
next
  case (Cons c cs)
  from Cons.prems obtain rs where rs: "check_rules c = Some rs" "rule_refs rs = []"
    and as: "action_refs (check_actions c) = []"
    by (auto simp: inlined_check_def split: option.splits)
  from rs have "insertNamedRules (rules_or_empty c) namedRules = Inr rs"
    by (simp add: rules_or_empty_def insertNamedRules_result inlined_rules_no_refs)
  moreover from as have "insertNamedActions (check_actions c) namedActions = Inr (check_actions c)"
    by (simp add: insertNamedActions_result inlined_actions_no_refs)
  moreover from rs have "c\<lparr>check_rules := Some rs, check_actions := check_actions c\<rparr> = c"
    by simp
  ultimately show ?case
    using Cons by simp
qed

lemma extractChecks_flat:
  "extractChecks cs namedRules namedActions = Inr (namedRules', namedActions') \<Longrightarrow>
   register_all normalizeName DuplicateRuleName (all_named_rules cs) namedRules = Inr namedRules' \<and>
   register_all toLowerCase DuplicateActionName (all_named_actions cs) namedActions =
     Inr namedActions'"
proof (induction cs arbitrary: namedRules namedActions)
  case Nil
  then show ?case by (simp add: all_named_rules_def all_named_actions_def)
next
  case (Cons c cs)
  from Cons.prems obtain nr na
    where nr: "extractNamedRules (rules_or_empty c) namedRules = Inr nr"
      and na: "extractNamedActions (check_actions c) namedActions = Inr na"
      and rest: "extractChecks cs nr na = Inr (namedRules', namedActions')"
    by (auto split: sum.splits)
  have rules: "all_named_rules (c # cs) = named_rules (rules_or_empty c) @ all_named_rules cs"
    and actions: "all_named_actions (c # cs) = named_actions (check_actions c) @ all_named_actions cs"
    by (simp_all add: all_named_rules_def all_named_actions_def)
  from extractNamedRules_Inr [OF nr] na Cons.IH [OF rest] show ?case
    unfolding rules actions register_all_append
    by (simp add: extractNamedActions_register_all)
qed

lemma register_all_values_named:
  assumes "register_all key err objs [] = Inr reg" and "map_of reg k = Some obj"
  shows "obj \<in> set objs"
proof -
  from register_all_registered [OF assms(1), of k] assms(2)
  have "find (\<lambda>x. key_of key x = Some k) objs = Some obj"
    by (simp add: registered_def)
  then show ?thesis
    by (auto simp: find_Some_iff)
qed

lemma inlined_rules_refs:
  "find (\<lambda>r. map_of reg (toLowerCase r) = None) (rule_refs rs) = None \<Longrightarrow>
   rule_refs (inlined_rules reg rs) = []"
  by (induction reg rs rule: inlined_rules.induct)
    (auto simp: find_append_first split: option.splits if_splits)

lemma inlined_actions_refs:
  "find (\<lambda>a. map_of reg (toLowerCase a) = None) (action_refs as) = None \<Longrightarrow>
   action_refs (inlined_actions reg as) = []"
  by (induction reg as rule: inlined_actions.induct) (auto split: option.splits if_splits)

lemma named_rules_inlined:
  "set (named_rules (inlined_rules reg rs)) \<subseteq>
   set (named_rules rs) \<union> {obj. \<exists>k. map_of reg k = Some obj}"
  by (induction reg rs rule: inlined_rules.induct) (auto split: option.splits if_splits)

lemma named_actions_inlined:
  "set (named_actions (inlined_actions reg as)) \<subseteq>
   set (named_actions as) \<union> {obj. \<exists>k. map_of reg k = Some obj}"
  by (induction reg as rule: inlined_actions.induct) (auto split: option.splits if_splits)

lemma conflict_free_subset:
  "conflict_free key [] objs \<Longrightarrow> set objs' \<subseteq> set objs \<Longrightarrow> conflict_free key [] objs'"
  unfolding conflict_free_def by blast

lemma insertChecks_output:
  assumes "insertChecks cs namedRules namedActions = Inr out"
  shows "(\<forall>c \<in> set out. inlined_check c) \<and>
         set (all_named_rules out) \<subseteq>
           set (all_named_rules cs) \<union> {obj. \<exists>k. map_of namedRules k = Some obj} \<and>
         set (all_named_actions out) \<subseteq>
           set (all_named_actions cs) \<union> {obj. \<exists>k. map_of namedActions k = Some obj}"
  using assms
proof (induction cs arbitrary: out)
  case Nil
  then show ?case by (simp add: all_named_rules_def all_named_actions_def)
next
  case (Cons c cs)
  from Cons.prems obtain strongRules strongActions structuredChecks
    where r: "insertNamedRules (rules_or_empty c) namedRules = Inr strongRules"
      and a: "insertNamedActions (check_actions c) namedActions = Inr strongActions"
      and rest: "insertChecks cs namedRules namedActions = Inr structuredChecks"
      and out: "out = c\<lparr>check_rules := Some strongRules, check_actions := strongActions\<rparr>
          # structuredChecks"
    by (auto split: sum.splits)
  from r have r': "find (\<lambda>r. map_of namedRules (toLowerCase r) = None)
        (rule_refs (rules_or_empty c)) = None"
    and sr: "strongRules = inlined_rules namedRules (rules_or_empty c)"
    by (auto simp: insertNamedRules_result split: option.splits)
  from a have a': "find (\<lambda>a. map_of namedActions (toLowerCase a) = None)
        (action_refs (check_actions c)) = None"
    and sa: "strongActions = inlined_actions namedActions (check_actions c)"
    by (auto simp: insertNamedActions_result split: option.splits)
  have head: "inlined_check (c\<lparr>check_rules := Some strongRules, check_actions := strongActions\<rparr>)"
    using inlined_rules_refs [OF r'] inlined_actions_refs [OF a'] sr sa
    by (simp add: inlined_check_def)
  have rules: "all_named_rules out = named_rules strongRules @ all_named_rules structuredChecks"
    and actions: "all_named_actions out =
      named_actions strongActions @ all_named_actions structuredChecks"
    and rules': "all_named_rules (c # cs) = named_rules (rules_or_empty c) @ all_named_rules cs"
    and actions': "all_named_actions (c # cs) =
      named_actions (check_actions c) @ all_named_actions cs"
    by (simp_all add: out all_named_rules_def all_named_actions_def rules_or_empty_def)
  from Cons.IH [OF rest] head out
    named_rules_inlined [of namedRules "rules_or_empty c"]
    named_actions_inlined [of namedActions "check_actions c"]
  show ?case
    unfolding rules actions rules' actions' sr sa by auto
qed

lemma parseToStructured_again:
  assumes "parseToStructured config = Inr out"
  shows "parseToStructured (config\<lparr>checks := Some out\<rparr>) = Inr out"
proof -
  let ?cs = "checks_or_empty config"
  from assms obtain nr na where e: "extractChecks ?cs [] [] = Inr (nr, na)"
    and i: "insertChecks ?cs nr na = Inr out"
    by (auto simp: parseToStructured_def split: sum.splits prod.splits)
  from extractChecks_flat [OF e]
  have fr: "register_all normalizeName DuplicateRuleName (all_named_rules ?cs) [] = Inr nr"
    and fa: "register_all toLowerCase DuplicateActionName (all_named_actions ?cs) [] = Inr na"
    by simp_all
  from fr fa have cf: "conflict_free normalizeName [] (all_named_rules ?cs)"
    "conflict_free toLowerCase [] (all_named_actions ?cs)"
    using register_all_succeeds [OF all_named_rules_named [of ?cs],
        of normalizeName DuplicateRuleName "[]"]
      register_all_succeeds [OF all_named_actions_named [of ?cs],
        of toLowerCase DuplicateActionName "[]"]
    by auto
  from insertChecks_output [OF i]
  have inl: "\<forall>c \<in> set out. inlined_check c"
    and sr: "set (all_named_rules out) \<subseteq>
        set (all_named_rules ?cs) \<union> {obj. \<exists>k. map_of nr k = Some obj}"
    and sa: "set (all_named_actions out) \<subseteq>
        set (all_named_actions ?cs) \<union> {obj. \<exists>k. map_of na k = Some obj}"
    by simp_all
  from sr register_all_values_named [OF fr]
  have "set (all_named_rules out) \<subseteq> set (all_named_rules ?cs)"
    by blast
  from conflict_free_subset [OF cf(1) this]
  have cr: "conflict_free normalizeName [] (all_named_rules out)" .
  from sa register_all_values_named [OF fa]
  have "set (all_named_actions out) \<subseteq> set (all_named_actions ?cs)"
    by blast
  from conflict_free_subset [OF cf(2) this]
  have ca: "conflict_free toLowerCase [] (all_named_actions out)" .
  have "\<exists>r. extractChecks out [] [] = Inr r"
    unfolding extractChecks_succeeds
      register_all_succeeds [OF all_named_rules_named]
      register_all_succeeds [OF all_named_actions_named]
    using cr ca by simp
  then obtain r where "extractChecks out [] [] = Inr r" ..
  with insertChecks_inlined [OF inl] show ?thesis
    by (auto simp: parseToStructured_def checks_or_empty_def split: prod.splits)
qed

text \<open>
  C7. On a fully inlined config, whose checks all carry their list of rules:
  when the named rules of all checks are free of conflicts under
  \<open>normalizeName\<close> and the named actions under \<open>toLowerCase\<close>,
  \<open>parseToStructured\<close> returns the checks as they are, in the same order and
  with the same members; otherwise it fails with the duplicate-name error of a
  rule or of an action. And whatever the config, the checks a resolution
  returns are returned unchanged when they are resolved again.
\<close>

theorem parseToStructured_inlined:
  "(fully_inlined config \<longrightarrow>
      (if conflict_free normalizeName [] (all_named_rules (checks_or_empty config)) \<and>
          conflict_free toLowerCase [] (all_named_actions (checks_or_empty config))
       then parseToStructured config = Inr (checks_or_empty config)
       else \<exists>n. parseToStructured config = Inl (DuplicateRuleName n) \<or>
                parseToStructured config = Inl (DuplicateActionName n))) \<and>
   (\<forall>out. parseToStructured config = Inr out \<longrightarrow>
      parseToStructured (config\<lparr>checks := Some out\<rparr>) = Inr out)"
proof (intro conjI impI allI)
  let ?cs = "checks_or_empty config"
  assume inl: "fully_inlined config"
  have ok: "(\<exists>r. extractChecks ?cs [] [] = Inr r) =
      (conflict_free normalizeName [] (all_named_rules ?cs) \<and>
       conflict_free toLowerCase [] (all_named_actions ?cs))"
    unfolding extractChecks_succeeds
      register_all_succeeds [OF all_named_rules_named]
      register_all_succeeds [OF all_named_actions_named] ..
  show "if conflict_free normalizeName [] (all_named_rules ?cs) \<and>
           conflict_free toLowerCase [] (all_named_actions ?cs)
        then parseToStructured config = Inr ?cs
        else \<exists>n. parseToStructured config = Inl (DuplicateRuleName n) \<or>
                 parseToStructured config = Inl (DuplicateActionName n)"
  proof (cases "extractChecks ?cs [] []")
    case (Inl e)
    with extractChecks_error [OF Inl] ok show ?thesis
      by (auto simp: parseToStructured_def)
  next
    case (Inr r)
    from inl have "\<forall>c \<in> set ?cs. inlined_check c"
      by (simp add: fully_inlined_def)
    from insertChecks_inlined [OF this] Inr ok show ?thesis
      by (auto simp: parseToStructured_def split: prod.splits)
  qed
next
  fix out
  assume "parseToStructured config = Inr out"
  then show "parseToStructured (config\<lparr>checks := Some out\<rparr>) = Inr out"
    by (rule parseToStructured_again)
qed

theorem parseToStructured_inlined_witness:
  "parseToStructured
     \<lparr>checks = Some
        [\<lparr>check_rules = Some
            [RuleObject \<lparr>kind = ''author'', name = Some ''Mods'', body = 1 :: nat\<rparr>,
             RuleSetJson (Some OR)
               [RuleObject \<lparr>kind = ''author'', name = Some ''mods'', body = 1\<rparr>,
                RuleObject \<lparr>kind = ''repeat'', name = None, body = 2\<rparr>]],
          check_actions = [ActionObject \<lparr>kind = ''remove'', name = Some ''rm'', body = 0 :: nat\<rparr>],
          check_rest = ''first''\<rparr>,
         \<lparr>check_rules = Some [],
          check_actions = [ActionObject \<lparr>kind = ''remove'', name = Some ''RM'', body = 0\<rparr>],
          check_rest = ''second''\<rparr>]\<rparr> =
   Inr [\<lparr>check_rules = Some
            [RuleObject \<lparr>kind = ''author'', name = Some ''Mods'', body = 1 :: nat\<rparr>,
             RuleSetJson (Some OR)
               [RuleObject \<lparr>kind = ''author'', name = Some ''mods'', body = 1\<rparr>,
                RuleObject \<lparr>kind = ''repeat'', name = None, body = 2\<rparr>]],
          check_actions = [ActionObject \<lparr>kind = ''remove'', name = Some ''rm'', body = 0 :: nat\<rparr>],
          check_rest = ''first''\<rparr>,
         \<lparr>check_rules = Some [],
          check_actions = [ActionObject \<lparr>kind = ''remove'', name = Some ''RM'', body = 0\<rparr>],
          check_rest = ''second''\<rparr>] \<and>
   parseToStructured
     (\<lparr>checks = Some
        [\<lparr>check_rules = Some [RuleObject \<lparr>kind = ''author'', name = Some ''Mods'', body = 1 :: nat\<rparr>],
          check_actions = [ActionName ''RM''], check_rest = ''first''\<rparr>,
         \<lparr>check_rules = Some [RuleName ''mods''],
          check_actions = [ActionObject \<lparr>kind = ''remove'', name = Some ''rm'', body = 0 :: nat\<rparr>],
          check_rest = ''second''\<rparr>]\<rparr>
     \<lparr>checks := Some
        [\<lparr>check_rules = Some [RuleObject \<lparr>kind = ''author'', name = Some ''Mods'', body = 1 :: nat\<rparr>],
          check_actions = [ActionObject \<lparr>kind = ''remove'', name = Some ''rm'', body = 0 :: nat\<rparr>],
          check_rest = ''first''\<rparr>,
         \<lparr>check_rules = Some [RuleObject \<lparr>kind = ''author'', name = Some ''Mods'', body = 1 :: nat\<rparr>],
          check_actions = [ActionObject \<lparr>kind = ''remove'', name = Some ''rm'', body = 0 :: nat\<rparr>],
          check_rest = ''second''\<rparr>]\<rparr>) =
   Inr [\<lparr>check_rules = Some [RuleObject \<lparr>kind = ''author'', name = Some ''Mods'', body = 1 :: nat\<rparr>],
          check_actions = [ActionObject \<lparr>kind = ''remove'', name = Some ''rm'', body = 0 :: nat\<rparr>],
          check_rest = ''first''\<rparr>,
         \<lparr>check_rules = Some [RuleObject \<lparr>kind = ''author'', name = Some ''Mods'', body = 1 :: nat\<rparr>],
          check_actions = [ActionObject \<lparr>kind = ''remove'', name = Some ''rm'', body = 0 :: nat\<rparr>],
          check_rest = ''second''\<rparr>]"
proof -
  have names: "normalizeName ''Mods'' = ''mods''" "normalizeName ''mods'' = ''mods''"
    "toLowerCase ''rm'' = ''rm''" "toLowerCase ''RM'' = ''rm''" "toLowerCase ''mods'' = ''mods''"
    by (simp_all add: normalizeName_def trim_def isWhiteSpace_def toLowerCase_def
        toLowerCase_char_def)
  let ?mods = "\<lparr>kind = ''author'', name = Some ''Mods'', body = 1 :: nat\<rparr>"
  let ?rm = "\<lparr>kind = ''remove'', name = Some ''rm'', body = 0 :: nat\<rparr>"
  let ?refs = "\<lparr>checks = Some
        [\<lparr>check_rules = Some [RuleObject ?mods], check_actions = [ActionName ''RM''],
          check_rest = ''first''\<rparr>,
         \<lparr>check_rules = Some [RuleName ''mods''], check_actions = [ActionObject ?rm],
          check_rest = ''second''\<rparr>]\<rparr>"
  let ?out = "[\<lparr>check_rules = Some [RuleObject ?mods], check_actions = [ActionObject ?rm],
          check_rest = ''first''\<rparr>,
         \<lparr>check_rules = Some [RuleObject ?mods], check_actions = [ActionObject ?rm],
          check_rest = ''second''\<rparr>]"
  have first: "parseToStructured ?refs = Inr ?out"
    by (simp add: parseToStructured_def checks_or_empty_def rules_or_empty_def noName_def names)
  from parseToStructured_inlined [THEN conjunct2, of ?refs] first
  have again: "parseToStructured (?refs\<lparr>checks := Some ?out\<rparr>) = Inr ?out"
    by blast
  have inlined: "parseToStructured
     \<lparr>checks = Some
        [\<lparr>check_rules = Some
            [RuleObject \<lparr>kind = ''author'', name = Some ''Mods'', body = 1 :: nat\<rparr>,
             RuleSetJson (Some OR)
               [RuleObject \<lparr>kind = ''author'', name = Some ''mods'', body = 1\<rparr>,
                RuleObject \<lparr>kind = ''repeat'', name = None, body = 2\<rparr>]],
          check_actions = [ActionObject \<lparr>kind = ''remove'', name = Some ''rm'', body = 0 :: nat\<rparr>],
          check_rest = ''first''\<rparr>,
         \<lparr>check_rules = Some [],
          check_actions = [ActionObject \<lparr>kind = ''remove'', name = Some ''RM'', body = 0\<rparr>],
          check_rest = ''second''\<rparr>]\<rparr> =
   Inr [\<lparr>check_rules = Some
            [RuleObject \<lparr>kind = ''author'', name = Some ''Mods'', body = 1 :: nat\<rparr>,
             RuleSetJson (Some OR)
               [RuleObject \<lparr>kind = ''author'', name = Some ''mods'', body = 1\<rparr>,
                RuleObject \<lparr>kind = ''repeat'', name = None, body = 2\<rparr>]],
          check_actions = [ActionObject \<lparr>kind = ''remove'', name = Some ''rm'', body = 0 :: nat\<rparr>],
          check_rest = ''first''\<rparr>,
         \<lparr>check_rules = Some [],
          check_actions = [ActionObject \<lparr>kind = ''remove'', name = Some ''RM'', body = 0\<rparr>],
          check_rest = ''second''\<rparr>]"
    using parseToStructured_inlined [THEN conjunct1, of
     "\<lparr>checks = Some
        [\<lparr>check_rules = Some
            [RuleObject \<lparr>kind = ''author'', name = Some ''Mods'', body = 1 :: nat\<rparr>,
             RuleSetJson (Some OR)
               [RuleObject \<lparr>kind = ''author'', name = Some ''mods'', body = 1\<rparr>,
                RuleObject \<lparr>kind = ''repeat'', name = None, body = 2\<rparr>]],
          check_actions = [ActionObject \<lparr>kind = ''remove'', name = Some ''rm'', body = 0 :: nat\<rparr>],
          check_rest = ''first''\<rparr>,
         \<lparr>check_rules = Some [],
          check_actions = [ActionObject \<lparr>kind = ''remove'', name = Some ''RM'', body = 0\<rparr>],
          check_rest = ''second''\<rparr>]\<rparr>"]
    by (simp add: fully_inlined_def inlined_check_def checks_or_empty_def rules_or_empty_def
        all_named_rules_def all_named_actions_def conflict_free_def fits_def agree_def
        key_of_def noName_def names)
  from inlined again show ?thesis
    by simp
qed

theorem parseToStructured_inlined_conflict:
  "fully_inlined
     \<lparr>checks = Some
        [\<lparr>check_rules = Some
            [RuleObject \<lparr>kind = ''author'', name = Some ''mods'', body = 1 :: nat\<rparr>,
             RuleObject \<lparr>kind = ''author'', name = Some ''Mods'', body = 2\<rparr>],
          check_actions = ([] :: nat ActionJson list), check_rest = ()\<rparr>]\<rparr> \<and>
   parseToStructured
     \<lparr>checks = Some
        [\<lparr>check_rules = Some
            [RuleObject \<lparr>kind = ''author'', name = Some ''mods'', body = 1 :: nat\<rparr>,
             RuleObject \<lparr>kind = ''author'', name = Some ''Mods'', body = 2\<rparr>],
          check_actions = ([] :: nat ActionJson list), check_rest = ()\<rparr>]\<rparr> =
   Inl (DuplicateRuleName ''Mods'')"
proof -
  have names: "normalizeName ''Mods'' = ''mods''" "normalizeName ''mods'' = ''mods''"
    by (simp_all add: normalizeName_def trim_def isWhiteSpace_def toLowerCase_def
        toLowerCase_char_def)
  show ?thesis
    by (simp add: fully_inlined_def inlined_check_def checks_or_empty_def rules_or_empty_def
        parseToStructured_def noName_def names)
qed

section \<open>Properties of the item check\<close>

lemma passes_true:
  "(fst (passes env item crit keys s) = Inr True) = (fields_pass env item keys s \<noteq> None)"
proof (induction keys arbitrary: s)
  case Nil
  show ?case by simp
next
  case (Cons kv keys)
  obtain r s1 where f: "field_test env item kv s = (r, s1)"
    by (cases "field_test env item kv s")
  show ?case
  proof (cases r)
    case (Inl err)
    with f show ?thesis by simp
  next
    case (Inr b)
    with f Cons.IH [of s1] show ?thesis by (cases b) simp_all
  qed
qed

lemma passes_result:
  "fields_pass env item keys s = Some s' \<Longrightarrow>
   passes env item crit keys s = (Inr True, logger LDebug (Passed crit) s')"
proof (induction keys arbitrary: s)
  case Nil
  then show ?case by simp
next
  case (Cons kv keys)
  then show ?case
    by (auto split: prod.splits sum.splits bool.splits)
qed

lemma passes_append:
  "fields_pass env item pre s = Some s1 \<Longrightarrow>
   passes env item crit (pre @ post) s = passes env item crit post s1"
proof (induction pre arbitrary: s)
  case Nil
  then show ?case by simp
next
  case (Cons kv pre)
  then show ?case
    by (auto split: prod.splits sum.splits bool.splits)
qed

lemma some_pass_append:
  "entries_fail env item pre s = Some s1 \<Longrightarrow>
   some_pass env item (pre @ post) s = some_pass env item post s1"
proof (induction pre arbitrary: s)
  case Nil
  then show ?case by simp
next
  case (Cons crit pre)
  then show ?case
    by (auto split: prod.splits sum.splits bool.splits)
qed

lemma some_pass_false:
  "entries_fail env item stateCriteria s = Some s' \<Longrightarrow>
   some_pass env item stateCriteria s = (Inr False, s')"
  using some_pass_append [of env item stateCriteria s s' "[]"] by simp

lemma some_pass_true:
  "(fst (some_pass env item stateCriteria s) = Inr True) =
   (\<exists>pre crit post s1. stateCriteria = pre @ crit # post \<and>
      entries_fail env item pre s = Some s1 \<and>
      fst (passes env item crit crit s1) = Inr True)"
proof (induction stateCriteria arbitrary: s)
  case Nil
  show ?case by simp
next
  case (Cons c cs)
  obtain r s1 where p: "passes env item c c s = (r, s1)"
    by (cases "passes env item c c s")
  show ?case
  proof (cases "r = Inr True")
    case True
    with p have "fst (some_pass env item (c # cs) s) = Inr True"
      by simp
    moreover from True p have "c # cs = [] @ c # cs \<and> entries_fail env item [] s = Some s \<and>
        fst (passes env item c c s) = Inr True"
      by simp
    ultimately show ?thesis by blast
  next
    case False
    show ?thesis
    proof (cases "r = Inr False")
      case f: True
      with p have step: "some_pass env item (c # cs) s = some_pass env item cs s1"
        by simp
      have "(\<exists>pre crit post s2. c # cs = pre @ crit # post \<and>
          entries_fail env item pre s = Some s2 \<and> fst (passes env item crit crit s2) = Inr True) =
        (\<exists>pre crit post s2. cs = pre @ crit # post \<and>
          entries_fail env item pre s1 = Some s2 \<and> fst (passes env item crit crit s2) = Inr True)"
        (is "?L = ?R")
      proof
        assume ?L
        then obtain pre crit post s2 where e: "c # cs = pre @ crit # post"
          and ef: "entries_fail env item pre s = Some s2"
          and pt: "fst (passes env item crit crit s2) = Inr True"
          by blast
        show ?R
        proof (cases pre)
          case Nil
          with e ef pt p f show ?thesis by simp
        next
          case (Cons c' pre')
          with e ef p f have "cs = pre' @ crit # post" "entries_fail env item pre' s1 = Some s2"
            by simp_all
          with pt show ?thesis by blast
        qed
      next
        assume ?R
        then obtain pre crit post s2 where e: "cs = pre @ crit # post"
          and ef: "entries_fail env item pre s1 = Some s2"
          and pt: "fst (passes env item crit crit s2) = Inr True"
          by blast
        from e ef p f have "c # cs = (c # pre) @ crit # post"
          "entries_fail env item (c # pre) s = Some s2"
          by simp_all
        with pt show ?L by blast
      qed
      with step Cons.IH [of s1] show ?thesis by simp
    next
      case nf: False
      with False obtain err where r: "r = Inl err"
        by (cases r) auto
      with p have l: "fst (some_pass env item (c # cs) s) \<noteq> Inr True"
        by simp
      have "\<not> (\<exists>pre crit post s2. c # cs = pre @ crit # post \<and>
          entries_fail env item pre s = Some s2 \<and> fst (passes env item crit crit s2) = Inr True)"
      proof
        assume "\<exists>pre crit post s2. c # cs = pre @ crit # post \<and>
          entries_fail env item pre s = Some s2 \<and> fst (passes env item crit crit s2) = Inr True"
        then obtain pre crit post s2 where e: "c # cs = pre @ crit # post"
          and ef: "entries_fail env item pre s = Some s2"
          and pt: "fst (passes env item crit crit s2) = Inr True"
          by blast
        show False
        proof (cases pre)
          case Nil
          with e ef pt p r show ?thesis by simp
        next
          case (Cons c' pre')
          with e ef p r show ?thesis by simp
        qed
      qed
      with l show ?thesis by simp
    qed
  qed
qed

text \<open>
  C8. The item check returns true on the empty list. On a list that is not
  empty its result is true exactly when some entry passes after every entry
  before it has failed, each evaluated in the state the one before left, and it
  then stops there, whatever follows; when every entry fails it returns false.
  An entry passes exactly when each of its fields passes in turn, and it fails
  at the first field that fails, whatever follows.
\<close>

theorem isItem_or_and:
  "isItem env item [] s = (Inr True, s) \<and>
   (stateCriteria \<noteq> [] \<longrightarrow>
      (fst (isItem env item stateCriteria s) = Inr True) =
      (\<exists>pre crit post s1. stateCriteria = pre @ crit # post \<and>
         entries_fail env item pre s = Some s1 \<and>
         fst (passes env item crit crit s1) = Inr True)) \<and>
   ((fst (passes env item crit crit s) = Inr True) = (fields_pass env item crit s \<noteq> None)) \<and>
   (\<forall>pre post s1 s2.
      entries_fail env item pre s = Some s1 \<and> passes env item crit crit s1 = (Inr True, s2) \<longrightarrow>
      isItem env item (pre @ crit # post) s = (Inr True, s2)) \<and>
   (\<forall>s'. stateCriteria \<noteq> [] \<and> entries_fail env item stateCriteria s = Some s' \<longrightarrow>
      isItem env item stateCriteria s = (Inr False, s')) \<and>
   (\<forall>pre kv post s1 s2.
      fields_pass env item pre s = Some s1 \<and> field_test env item kv s1 = (Inr False, s2) \<longrightarrow>
      passes env item crit (pre @ kv # post) s = (Inr False, s2))"
proof (intro conjI allI impI)
  show "isItem env item [] s = (Inr True, s)"
    by simp
next
  assume "stateCriteria \<noteq> []"
  then show "(fst (isItem env item stateCriteria s) = Inr True) =
      (\<exists>pre crit post s1. stateCriteria = pre @ crit # post \<and>
         entries_fail env item pre s = Some s1 \<and>
         fst (passes env item crit crit s1) = Inr True)"
    using some_pass_true [of env item stateCriteria s] by simp
next
  show "(fst (passes env item crit crit s) = Inr True) = (fields_pass env item crit s \<noteq> None)"
    by (rule passes_true)
next
  fix pre post s1 s2
  assume "entries_fail env item pre s = Some s1 \<and> passes env item crit crit s1 = (Inr True, s2)"
  then show "isItem env item (pre @ crit # post) s = (Inr True, s2)"
    using some_pass_append [of env item pre s s1 "crit # post"] by simp
next
  fix s'
  assume "stateCriteria \<noteq> [] \<and> entries_fail env item stateCriteria s = Some s'"
  then show "isItem env item stateCriteria s = (Inr False, s')"
    using some_pass_false [of env item stateCriteria s s'] by simp
next
  fix pre kv post s1 s2
  assume "fields_pass env item pre s = Some s1 \<and> field_test env item kv s1 = (Inr False, s2)"
  then show "passes env item crit (pre @ kv # post) s = (Inr False, s2)"
    using passes_append [of env item pre s s1 crit "kv # post"] by simp
qed

theorem isItem_or_and_witness:
  "fst (isItem example_env example_submission
      [[(''removed'', CBool True)],
       [(''title'', CString ''hello''), (''removed'', CBool False)],
       [(''title'', CString ''['')]] example_state) = Inr True \<and>
   fst (isItem example_env example_submission
      [[(''title'', CString ''hello''), (''removed'', CBool True)]] example_state) = Inr False \<and>
   fst (isItem example_env example_submission [] example_state) = Inr True"
proof -
  let ?c1 = "[(''removed'', CBool True)]"
  let ?c2 = "[(''title'', CString ''hello''), (''removed'', CBool False)]"
  let ?c3 = "[(''title'', CString ''['')]"
  let ?c4 = "[(''title'', CString ''hello''), (''removed'', CBool True)]"
  note ev = example_env_def example_submission_def own_field_test_def flag_test_def
    title_test_def logger_def
  have "\<exists>pre crit post s1. [?c1, ?c2, ?c3] = pre @ crit # post \<and>
      entries_fail example_env example_submission pre example_state = Some s1 \<and>
      fst (passes example_env example_submission crit crit s1) = Inr True"
    by (intro exI [of _ "[?c1]"] exI [of _ ?c2] exI [of _ "[?c3]"]) (simp add: ev)
  with isItem_or_and [of example_env example_submission example_state "[?c1, ?c2, ?c3]"]
  have a: "fst (isItem example_env example_submission [?c1, ?c2, ?c3] example_state) = Inr True"
    by (simp del: isItem.simps)
  have "\<exists>s'. entries_fail example_env example_submission [?c4] example_state = Some s'"
    by (simp add: ev)
  with isItem_or_and [of example_env example_submission example_state "[?c4]"]
  have b: "fst (isItem example_env example_submission [?c4] example_state) = Inr False"
    by (auto simp del: isItem.simps)
  from isItem_or_and [of example_env example_submission example_state]
  have c: "fst (isItem example_env example_submission [] example_state) = Inr True"
    by (simp del: isItem.simps)
  from a b c show ?thesis by simp
qed

subsection \<open>The title of a submission\<close>

lemma fields_pass_append:
  "fields_pass env item (pre @ post) s =
     (case fields_pass env item pre s of None \<Rightarrow> None | Some s1 \<Rightarrow> fields_pass env item post s1)"
proof (induction pre arbitrary: s)
  case Nil
  show ?case by simp
next
  case (Cons kv pre)
  then show ?case
    by (auto split: prod.splits sum.splits bool.splits)
qed

lemma fields_pass_Cons:
  "(fields_pass env item (kv # keys) s = Some s') =
   (\<exists>s1. field_test env item kv s = (Inr True, s1) \<and> fields_pass env item keys s1 = Some s')"
proof (cases "field_test env item kv s")
  case (Pair r s1)
  show ?thesis
  proof (cases r)
    case (Inl err)
    with Pair show ?thesis by simp
  next
    case (Inr b)
    with Pair show ?thesis by (cases b) simp_all
  qed
qed

lemma flag_test_returns: "\<not> isl (fst (flag_test k found v s))"
  by (simp add: flag_test_def)

lemma property_test_returns: "\<not> isl (fst (property_test item k v s))"
  by (cases "props item k") (simp_all add: property_test_def)

lemma title_test_returns:
  assumes "pattern_of v \<noteq> None"
  shows "\<not> isl (fst (title_test env item v s))"
proof -
  from assms obtain titleReg where p: "pattern_of v = Some titleReg"
    by auto
  show ?thesis
  proof (cases "title item")
    case None
    with p show ?thesis by (simp add: title_test_def)
  next
    case (Some t)
    show ?thesis
    proof (cases "regex_match env titleReg t")
      case None
      with p Some show ?thesis by (simp add: title_test_def)
    next
      case m: (Some b)
      with p Some show ?thesis by (cases b) (simp_all add: title_test_def)
    qed
  qed
qed

lemma own_field_test_returns:
  assumes "k = ''title'' \<longrightarrow> pattern_of v \<noteq> None"
  shows "\<not> isl (fst (own_field_test env item k v s))"
  using assms
  by (simp add: own_field_test_def flag_test_returns property_test_returns title_test_returns)

lemma field_test_submission:
  assumes "\<not> is_comment item" and "k = ''title'' \<longrightarrow> pattern_of v \<noteq> None"
  shows "\<not> isl (fst (field_test env item (k, v) s))"
  using assms(1) own_field_test_returns [OF assms(2), of env item s]
  by simp

lemma passes_submission:
  assumes "\<not> is_comment item" and "\<forall>(k, v) \<in> set keys. k = ''title'' \<longrightarrow> pattern_of v \<noteq> None"
  shows "\<not> isl (fst (passes env item crit keys s))"
  using assms(2)
proof (induction keys arbitrary: s)
  case Nil
  show ?case by simp
next
  case (Cons kv keys)
  obtain k v where kv: "kv = (k, v)"
    by (cases kv)
  with Cons.prems have "k = ''title'' \<longrightarrow> pattern_of v \<noteq> None"
    by simp
  from field_test_submission [OF assms(1) this, of env s] obtain b s1
    where f: "field_test env item (k, v) s = (Inr b, s1)"
    by (cases "field_test env item (k, v) s"; cases "fst (field_test env item (k, v) s)") auto
  from Cons.prems have "\<forall>(k, v) \<in> set keys. k = ''title'' \<longrightarrow> pattern_of v \<noteq> None"
    by simp
  from Cons.IH [OF this, of s1] f kv show ?case
    by (cases b) (simp_all del: field_test.simps)
qed

lemma title_test_submission:
  assumes "\<not> is_comment item"
  shows "field_test env item (''title'', CString titleReg) s =
     (case title item of
        None \<Rightarrow> (Inr False, logger LError (TitleRegexError titleReg) s)
      | Some t \<Rightarrow>
          (case regex_match env titleReg t of
             None \<Rightarrow> (Inr False, logger LError (TitleRegexError titleReg) s)
           | Some False \<Rightarrow> (Inr False, logger LDebug (TitleNoMatch titleReg) s)
           | Some True \<Rightarrow> (Inr True, s)))"
  using assms by (simp add: own_field_test_def title_test_def)

text \<open>
  C9. On a submission, for a criteria entry (an object, so its keys are
  distinct) that declares \<open>title\<close> with a string: the entry passes only if the
  pattern matches the title of the activity. When the pattern cannot be parsed
  the entry fails without anything being thrown, the remaining entries are
  evaluated from the state the entry left, and if the fields before \<open>title\<close>
  pass, the entry ends at the \<open>title\<close> field with the error logged.
\<close>

theorem title_regex:
  assumes "\<not> is_comment item"
    and "crit = pre @ (''title'', CString titleReg) # post"
    and "distinct (map fst crit)"
  shows "(fst (passes env item crit crit s) = Inr True \<longrightarrow>
            (\<exists>t. title item = Some t \<and> regex_match env titleReg t = Some True)) \<and>
         ((\<exists>t. title item = Some t \<and> regex_match env titleReg t = None) \<longrightarrow>
            (\<exists>s'. passes env item crit crit s = (Inr False, s') \<and>
               (\<forall>rest. isItem env item (crit # rest) s = some_pass env item rest s') \<and>
               (\<forall>s1. fields_pass env item pre s = Some s1 \<longrightarrow>
                  s' = logger LError (TitleRegexError titleReg) s1)))"
proof -
  let ?t = "(''title'', CString titleReg)"
  have match: "\<exists>t. title item = Some t \<and> regex_match env titleReg t = Some True"
    if "fst (passes env item crit crit s) = Inr True"
  proof -
    from that obtain s' where "fields_pass env item crit s = Some s'"
      by (auto simp: passes_true)
    then obtain s1 where "fields_pass env item pre s = Some s1"
      and "fields_pass env item (?t # post) s1 = Some s'"
      unfolding assms(2) fields_pass_append by (cases "fields_pass env item pre s") simp_all
    then obtain s2 where "field_test env item ?t s1 = (Inr True, s2)"
      unfolding fields_pass_Cons by blast
    then show ?thesis
      unfolding title_test_submission [OF assms(1)]
      by (cases "title item"; cases "regex_match env titleReg (the (title item))")
        (auto split: bool.splits)
  qed
  have only: "pattern_of v \<noteq> None" if "(''title'', v) \<in> set crit" for v
  proof -
    have "map_of crit ''title'' = Some v"
      using that assms(3) by simp
    moreover have "(''title'', CString titleReg) \<in> set crit"
      by (simp add: assms(2))
    then have "map_of crit ''title'' = Some (CString titleReg)"
      using assms(3) by simp
    ultimately have "v = CString titleReg" by simp
    then show ?thesis by simp
  qed
  then have typed: "\<forall>(k, v) \<in> set crit. k = ''title'' \<longrightarrow> pattern_of v \<noteq> None"
    by auto
  have unparsable: "\<exists>s'. passes env item crit crit s = (Inr False, s') \<and>
      (\<forall>rest. isItem env item (crit # rest) s = some_pass env item rest s') \<and>
      (\<forall>s1. fields_pass env item pre s = Some s1 \<longrightarrow>
         s' = logger LError (TitleRegexError titleReg) s1)"
    if "\<exists>t. title item = Some t \<and> regex_match env titleReg t = None"
  proof -
    from passes_submission [OF assms(1) typed, of env crit s]
    obtain b s' where p: "passes env item crit crit s = (Inr b, s')"
      by (cases "passes env item crit crit s"; cases "fst (passes env item crit crit s)") auto
    from match that p have "\<not> b"
      by auto
    with p have f: "passes env item crit crit s = (Inr False, s')"
      by simp
    then have cont: "\<forall>rest. isItem env item (crit # rest) s = some_pass env item rest s'"
      by simp
    have "s' = logger LError (TitleRegexError titleReg) s1"
      if "fields_pass env item pre s = Some s1" for s1
    proof -
      from passes_append [OF that, of crit "?t # post"] f
      have "passes env item crit (?t # post) s1 = (Inr False, s')"
        by (simp add: assms(2))
      moreover from \<open>\<exists>t. title item = Some t \<and> regex_match env titleReg t = None\<close>
      have "field_test env item ?t s1 = (Inr False, logger LError (TitleRegexError titleReg) s1)"
        unfolding title_test_submission [OF assms(1)] by auto
      ultimately show ?thesis
        by (simp del: field_test.simps)
    qed
    with f cont show ?thesis by blast
  qed
  from match unparsable show ?thesis by blast
qed

theorem title_regex_witness:
  "(\<exists>s'. passes example_env example_submission
       [(''removed'', CBool False), (''title'', CString ''['')]
       [(''removed'', CBool False), (''title'', CString ''['')] example_state = (Inr False, s') \<and>
      logged s' = [(LError, TitleRegexError ''['')] \<and>
      isItem example_env example_submission
        [[(''removed'', CBool False), (''title'', CString ''['')], []] example_state =
      some_pass example_env example_submission [[]] s') \<and>
   fst (isItem example_env example_submission
     [[(''removed'', CBool False), (''title'', CString ''['')], []] example_state) = Inr True"
proof -
  let ?crit = "[(''removed'', CBool False), (''title'', CString ''['')]"
  have sub: "\<not> is_comment example_submission"
    by (simp add: example_submission_def)
  have crit: "?crit = [(''removed'', CBool False)] @ (''title'', CString ''['') # []"
    by simp
  have d: "distinct (map fst ?crit)"
    by simp
  have bad: "\<exists>t. title example_submission = Some t \<and> regex_match example_env ''['' t = None"
    by (simp add: example_submission_def example_env_def)
  have pre: "fields_pass example_env example_submission [(''removed'', CBool False)] example_state =
      Some example_state"
    by (simp add: example_env_def own_field_test_def flag_test_def)
  from title_regex [OF sub crit d, of example_env example_state] bad pre
  obtain s' where p: "passes example_env example_submission ?crit ?crit example_state = (Inr False, s')"
    and c: "\<forall>rest. isItem example_env example_submission (?crit # rest) example_state =
        some_pass example_env example_submission rest s'"
    and l: "s' = logger LError (TitleRegexError ''['') example_state"
    by blast
  from l have lg: "logged s' = [(LError, TitleRegexError ''['')]"
    by (simp add: logger_def example_state_def)
  from c have c1: "isItem example_env example_submission [?crit, []] example_state =
      some_pass example_env example_submission [[]] s'"
    by blast
  then have "fst (isItem example_env example_submission [?crit, []] example_state) = Inr True"
    by (simp del: isItem.simps)
  with p lg c1 show ?thesis by blast
qed

subsection \<open>The title of a comment\<close>

text \<open>
  C10. On a comment, a declared \<open>title\<close> field passes with a logged warning,
  whatever its value: the entry goes on with its remaining fields, and an entry
  that holds nothing but \<open>title\<close> matches.
\<close>

theorem title_on_comment:
  assumes "is_comment item" and "v \<noteq> CUndefined"
  shows "field_test env item (''title'', v) s = (Inr True, logger LWarn TitleOnComment s) \<and>
         (\<forall>pre post s1. fields_pass env item pre s = Some s1 \<longrightarrow>
            passes env item crit (pre @ (''title'', v) # post) s =
            passes env item crit post (logger LWarn TitleOnComment s1)) \<and>
         isItem env item [[(''title'', v)]] s =
           (Inr True, logger LDebug (Passed [(''title'', v)]) (logger LWarn TitleOnComment s))"
proof -
  from assms have f: "\<And>s. field_test env item (''title'', v) s =
      (Inr True, logger LWarn TitleOnComment s)"
    by (simp add: own_field_test_def title_test_def)
  have "passes env item crit (pre @ (''title'', v) # post) s =
      passes env item crit post (logger LWarn TitleOnComment s1)"
    if "fields_pass env item pre s = Some s1" for pre post s1
    using passes_append [OF that, of crit "(''title'', v) # post"] f [of s1]
    by (simp del: field_test.simps)
  moreover have "isItem env item [[(''title'', v)]] s =
      (Inr True, logger LDebug (Passed [(''title'', v)]) (logger LWarn TitleOnComment s))"
    using f [of s] by (simp del: field_test.simps)
  ultimately show ?thesis using f by blast
qed

theorem title_on_comment_witness:
  "isItem example_env example_comment [[(''title'', CString ''['')]] example_state =
     (Inr True, logger LDebug (Passed [(''title'', CString ''['')])
        (logger LWarn TitleOnComment example_state))"
  using title_on_comment [of example_comment "CString ''[''" example_env example_state]
  by (simp add: example_comment_def del: isItem.simps)

section \<open>Properties of getActivity\<close>

lemma cachedActivity_miss:
  assumes "store s hash = None" and "fetch env item = Inr a"
  shows "cachedActivity env c hash hit ttl item s =
     (Inr a, cache_set hash (CachedActivity a) ttl
        (count_miss c ((count_request env c hash s)
           \<lparr>cache_ops := cache_ops s @ [CacheGet hash], fetches := fetches s @ [item]\<rparr>)))"
  using assms
  by (simp add: cachedActivity_def cache_get_def count_request_def update_stats_def
      item_fetch_def)

lemma cachedActivity_hit:
  assumes "store s hash = Some (CachedActivity a, ttl')"
  shows "cachedActivity env c hash hit ttl item s =
     (Inr a, logger LDebug hit
        ((count_request env c hash s)\<lparr>cache_ops := cache_ops s @ [CacheGet hash]\<rparr>))"
  using assms
  by (simp add: cachedActivity_def cache_get_def count_request_def update_stats_def)

lemma getActivity_disabled:
  assumes "commentTTL (self s) = None"
    and "is_comment item \<or> submissionTTL (self s) = None"
  shows "getActivity env item s =
     (case fetch env item of
        Inr a \<Rightarrow> (Inr a, s\<lparr>fetches := fetches s @ [item]\<rparr>)
      | Inl err \<Rightarrow>
          (if err = OutsideModel then (Inl OutsideModel, s\<lparr>fetches := fetches s @ [item]\<rparr>)
           else
             (case logged_property err of
                Inl e \<Rightarrow> (Inl e, logger LError FetchActivityError (s\<lparr>fetches := fetches s @ [item]\<rparr>))
              | Inr l \<Rightarrow>
                  (Inl (Thrown l),
                   logger LError FetchActivityError (s\<lparr>fetches := fetches s @ [item]\<rparr>)))))"
  using assms
  by (auto simp: getActivity_def asSubmission_def item_fetch_def
      split: sum.splits thrown.splits)

text \<open>
  C3. A submission whose own category is disabled (\<^verbatim>\<open>submissionTTL === false\<close>)
  while the comment category is enabled is not fetched on every call: the
  first call stores it under its \<^verbatim>\<open>comm-\<close> key with the comment TTL, the
  second call is answered from the store, so two calls make one fetch, three
  accesses to the backing store and two requests counted for the comment
  category.
\<close>

theorem getActivity_submission_as_comment:
  assumes "\<not> is_comment item"
    and "submissionTTL (self s) = None"
    and "commentTTL (self s) = Some ttl"
    and "store s (''comm-'' @ item_name item) = None"
    and "fetch env item = Inr a"
  shows "\<exists>s1 s2.
           getActivity env item s = (Inr a, s1) \<and>
           getActivity env item s1 = (Inr a, s2) \<and>
           store s1 (''comm-'' @ item_name item) = Some (CachedActivity a, ttl) \<and>
           fetches s2 = fetches s @ [item] \<and>
           cache_ops s2 = cache_ops s @
             [CacheGet (''comm-'' @ item_name item), CacheSet (''comm-'' @ item_name item),
              CacheGet (''comm-'' @ item_name item)] \<and>
           requests (stats (self s2) CommentStats) = requests (stats (self s) CommentStats) + 2"
proof -
  let ?hash = "''comm-'' @ item_name item"
  let ?s1 = "cache_set ?hash (CachedActivity a) ttl
        (count_miss CommentStats ((count_request env CommentStats ?hash s)
           \<lparr>cache_ops := cache_ops s @ [CacheGet ?hash], fetches := fetches s @ [item]\<rparr>))"
  let ?s2 = "logger LDebug (CacheHitComment (item_name item))
        ((count_request env CommentStats ?hash ?s1)\<lparr>cache_ops := cache_ops ?s1 @ [CacheGet ?hash]\<rparr>)"
  have first: "getActivity env item s = (Inr a, ?s1)"
    using assms(2,3) cachedActivity_miss [OF assms(4,5)]
    by (simp add: getActivity_def)
  have ttl1: "submissionTTL (self ?s1) = None" "commentTTL (self ?s1) = Some ttl"
    using assms(2,3)
    by (simp_all add: cache_set_def count_miss_def count_request_def update_stats_def)
  have stored: "store ?s1 ?hash = Some (CachedActivity a, ttl)"
    by (simp add: cache_set_def)
  have second: "getActivity env item ?s1 = (Inr a, ?s2)"
    using ttl1 cachedActivity_hit [OF stored]
    by (simp add: getActivity_def)
  have "fetches ?s2 = fetches s @ [item]"
    by (simp add: logger_def cache_set_def count_miss_def count_request_def update_stats_def)
  moreover have "cache_ops ?s2 = cache_ops s @ [CacheGet ?hash, CacheSet ?hash, CacheGet ?hash]"
    by (simp add: logger_def cache_set_def count_miss_def count_request_def update_stats_def)
  moreover have "requests (stats (self ?s2) CommentStats) =
      requests (stats (self s) CommentStats) + 2"
    by (simp add: logger_def cache_set_def count_miss_def count_request_def update_stats_def)
  ultimately show ?thesis
    using first second stored by blast
qed

theorem getActivity_submission_as_comment_witness:
  "\<exists>s1 s2.
     getActivity example_env example_submission example_state =
       (Inr (example_submission\<lparr>title := Some ''fetched''\<rparr>), s1) \<and>
     getActivity example_env example_submission s1 =
       (Inr (example_submission\<lparr>title := Some ''fetched''\<rparr>), s2) \<and>
     submissionTTL (self example_state) = None \<and>
     fetches s2 = [example_submission] \<and>
     cache_ops s2 = [CacheGet ''comm-t3_a'', CacheSet ''comm-t3_a'', CacheGet ''comm-t3_a'']"
proof -
  have 1: "\<not> is_comment example_submission"
    by (simp add: example_submission_def)
  have 2: "submissionTTL (self example_state) = None"
    and 3: "commentTTL (self example_state) = Some 60"
    and 4: "store example_state (''comm-'' @ item_name example_submission) = None"
    by (simp_all add: example_state_def)
  have 5: "fetch example_env example_submission =
      Inr (example_submission\<lparr>title := Some ''fetched''\<rparr>)"
    by (simp add: example_env_def)
  have 6: "fetches example_state = []" "cache_ops example_state = []"
    "item_name example_submission = ''t3_a''"
    by (simp_all add: example_state_def example_submission_def)
  from getActivity_submission_as_comment [OF 1 2 3 4 5] obtain s1 s2
    where "getActivity example_env example_submission example_state =
        (Inr (example_submission\<lparr>title := Some ''fetched''\<rparr>), s1)"
      and "getActivity example_env example_submission s1 =
        (Inr (example_submission\<lparr>title := Some ''fetched''\<rparr>), s2)"
      and "fetches s2 = fetches example_state @ [example_submission]"
      and "cache_ops s2 = cache_ops example_state @
        [CacheGet (''comm-'' @ item_name example_submission),
         CacheSet (''comm-'' @ item_name example_submission),
         CacheGet (''comm-'' @ item_name example_submission)]"
    by blast
  with 2 6 show ?thesis
    by auto
qed

section \<open>Properties of the registry of resources\<close>

lemma build_options_caches:
  "build_options env subName initOptions m = (opts, m1) \<Longrightarrow>
   resources m1 = resources m \<and> take (length (caches m)) (caches m1) = caches m"
  by (auto simp: build_options_def createCacheManager_def Let_def split: option.splits if_splits)

lemma build_options_shared:
  assumes "caching initOptions = None \<or>
      (\<exists>c. caching initOptions = Some c \<and> objectHash env (cacheConfig env m c) = cacheHash m)"
  shows "build_options env subName initOptions m =
     (\<lparr>opt_cache = defaultCache m, opt_cacheType = manager_cacheType m,
       opt_cacheSettingsHash = ''default'', opt_ttl = ttlDefaults m,
       opt_prefix = provider_prefix (defaultProvider m),
       opt_footer = footer_config initOptions\<rparr>, m)"
  using assms by (auto simp: build_options_def)

lemma build_options_private:
  assumes "caching initOptions = Some c" and "objectHash env (cacheConfig env m c) \<noteq> cacheHash m"
  shows "build_options env subName initOptions m =
     (\<lparr>opt_cache = length (caches m),
       opt_cacheType = provider_store (fst (cacheConfig env m c)),
       opt_cacheSettingsHash = objectHash env (cacheConfig env m c),
       opt_ttl = snd (cacheConfig env m c),
       opt_prefix = subPrefix env m subName (fst (cacheConfig env m c)),
       opt_footer = footer_config initOptions\<rparr>,
      m\<lparr>caches := caches m @
         [\<lparr>contents = (\<lambda>k. None),
           built_from = (fst (cacheConfig env m c))
             \<lparr>provider_prefix := subPrefix env m subName (fst (cacheConfig env m c))\<rparr>\<rparr>]\<rparr>)"
  using assms by (simp add: build_options_def createCacheManager_def Let_def)

text \<open>
  C4. For a community that has a SubredditResources whose cache object exists:
  when its stored hash equals the hash of the new settings, \<open>manager_set\<close>
  returns that object with the footer set from the options (if it differs)
  and the statistics reset, and leaves every existing cache object as it is,
  entries included; when the hash differs, the cache of the old object is
  reset, no other existing cache object changes, and a new object is
  registered: with a new, empty cache under the prefix \<open>subPrefix\<close> when the
  call carries caching settings whose hash is not the shared hash, and with
  the shared default cache and the shared prefix otherwise.
\<close>

theorem manager_set_reuse_or_rebuild:
  assumes "resources m subName = Some res"
    and "cache res < length (caches m)"
    and "manager_set env subName initOptions m = (resource, m')"
  shows "(cacheSettingsHash res = settings_hash env m initOptions \<longrightarrow>
            resource = res
              \<lparr>footer := (if footer_config initOptions \<noteq> footer res
                          then footer_or_default (footer_config initOptions) else footer res),
               stats := cacheStats\<rparr> \<and>
            resources m' subName = Some resource \<and>
            take (length (caches m)) (caches m') = caches m) \<and>
         (cacheSettingsHash res \<noteq> settings_hash env m initOptions \<longrightarrow>
            contents (caches m' ! cache res) = (\<lambda>k. None) \<and>
            (\<forall>c < length (caches m). c \<noteq> cache res \<longrightarrow> caches m' ! c = caches m ! c) \<and>
            resources m' subName = Some resource \<and>
            (case caching initOptions of
               None \<Rightarrow>
                 cache resource = defaultCache m \<and>
                 prefix resource = provider_prefix (defaultProvider m) \<and>
                 cacheSettingsHash resource = ''default''
             | Some c \<Rightarrow>
                 if objectHash env (cacheConfig env m c) \<noteq> cacheHash m then
                   cache resource = length (caches m) \<and>
                   length (caches m') = Suc (length (caches m)) \<and>
                   contents (caches m' ! cache resource) = (\<lambda>k. None) \<and>
                   prefix resource = subPrefix env m subName (fst (cacheConfig env m c)) \<and>
                   cacheSettingsHash resource = objectHash env (cacheConfig env m c)
                 else
                   cache resource = defaultCache m \<and>
                   prefix resource = provider_prefix (defaultProvider m) \<and>
                   cacheSettingsHash resource = ''default''))"
proof (cases "caching initOptions = None \<or>
      (\<exists>c. caching initOptions = Some c \<and> objectHash env (cacheConfig env m c) = cacheHash m)")
  case True
  note b = build_options_shared [OF True, of subName]
  show ?thesis
  proof (cases "cacheSettingsHash res = settings_hash env m initOptions")
    case same: True
    with assms b show ?thesis
      by (auto simp: manager_set_def manager_get_def Let_def)
  next
    case False
    with assms b True show ?thesis
      by (auto simp: manager_set_def manager_get_def Let_def cache_reset_def
          new_SubredditResources_def split: option.splits)
  qed
next
  case False
  then obtain c where c: "caching initOptions = Some c"
    and h: "objectHash env (cacheConfig env m c) \<noteq> cacheHash m"
    by auto
  note b = build_options_private [OF c h, of subName]
  show ?thesis
  proof (cases "cacheSettingsHash res = settings_hash env m initOptions")
    case same: True
    with assms b show ?thesis
      by (auto simp: manager_set_def manager_get_def Let_def)
  next
    case False
    have "(caches m @ [x])[cache res := y] ! cache res = y" for x y
      using assms(2) by (simp add: nth_append list_update_append)
    with assms b c h False show ?thesis
      by (auto simp: manager_set_def manager_get_def Let_def cache_reset_def settings_hash_def
          new_SubredditResources_def nth_append list_update_append)
  qed
qed

theorem manager_set_reuse_or_rebuild_witness:
  "\<exists>r1 m1 r2 m2.
     manager_set example_manager_env ''sub'' (example_caching 10) example_manager = (r1, m1) \<and>
     manager_set example_manager_env ''sub'' (example_caching 10)
       (example_put (cache r1) ''sub-t3_a'' (CachedBool False, 10) m1) = (r2, m2) \<and>
     cache r2 = cache r1 \<and>
     contents (caches m2 ! cache r2) ''sub-t3_a'' = Some (CachedBool False, 10) \<and>
     stats r2 = cacheStats"
proof -
  define r1 where "r1 = fst (manager_set example_manager_env ''sub'' (example_caching 10) example_manager)"
  define m1 where "m1 = snd (manager_set example_manager_env ''sub'' (example_caching 10) example_manager)"
  define m1' where "m1' = example_put (cache r1) ''sub-t3_a'' (CachedBool False, 10) m1"
  define r2 where "r2 = fst (manager_set example_manager_env ''sub'' (example_caching 10) m1')"
  define m2 where "m2 = snd (manager_set example_manager_env ''sub'' (example_caching 10) m1')"
  have first: "manager_set example_manager_env ''sub'' (example_caching 10) example_manager = (r1, m1)"
    by (simp add: r1_def m1_def)
  have second: "manager_set example_manager_env ''sub'' (example_caching 10) m1' = (r2, m2)"
    by (simp add: r2_def m2_def)
  have c1: "cache r1 = 1"
    by (simp add: r1_def example_manager_simps)
  have res: "resources m1' ''sub'' = Some r1"
    by (simp add: m1'_def m1_def r1_def example_manager_simps)
  have len: "cache r1 < length (caches m1')"
    by (simp add: m1'_def m1_def r1_def example_manager_simps)
  have same: "cacheSettingsHash r1 = settings_hash example_manager_env m1' (example_caching 10)"
    by (simp add: m1'_def m1_def r1_def example_manager_simps)
  have entry: "contents (caches m1' ! 1) ''sub-t3_a'' = Some (CachedBool False, 10)"
    by (simp add: m1'_def m1_def r1_def example_manager_simps)
  have l1: "length (caches m1') = 2"
    by (simp add: m1'_def m1_def r1_def example_manager_simps)
  from manager_set_reuse_or_rebuild [OF res len second] same
  have r2: "r2 = r1
      \<lparr>footer := (if footer_config (example_caching 10) \<noteq> footer r1
                  then footer_or_default (footer_config (example_caching 10)) else footer r1),
       stats := cacheStats\<rparr>"
    and keep: "take (length (caches m1')) (caches m2) = caches m1'"
    by simp_all
  from keep l1 have "caches m2 ! 1 = caches m1' ! 1"
    by (metis nth_take one_less_numeral_iff semiring_norm(76))
  with r2 c1 entry have "cache r2 = cache r1"
    "contents (caches m2 ! cache r2) ''sub-t3_a'' = Some (CachedBool False, 10)"
    "stats r2 = cacheStats"
    by simp_all
  with first second show ?thesis
    unfolding m1'_def by blast
qed

theorem manager_set_back_to_shared:
  "cacheSettingsHash
     (fst (manager_set example_manager_env ''sub'' (example_caching 10) example_manager)) \<noteq>
   settings_hash example_manager_env
     (snd (manager_set example_manager_env ''sub'' (example_caching 10) example_manager))
     example_no_caching \<and>
   cache (fst (manager_set example_manager_env ''sub'' example_no_caching
     (snd (manager_set example_manager_env ''sub'' (example_caching 10) example_manager)))) =
   defaultCache example_manager \<and>
   contents (caches (snd (manager_set example_manager_env ''sub'' example_no_caching
     (snd (manager_set example_manager_env ''sub'' (example_caching 10) example_manager)))) !
     defaultCache example_manager) ''sub-t3_other'' = Some (CachedBool True, 60) \<and>
   prefix (fst (manager_set example_manager_env ''sub'' example_no_caching
     (snd (manager_set example_manager_env ''sub'' (example_caching 10) example_manager)))) =
   provider_prefix (defaultProvider example_manager)"
  by (simp add: example_manager_simps)

end
